theory Spec2Isabelle
  imports Complex_Main
begin

section \<open>uri2sql: the data of one translation\<close>

text \<open>
  The module \<^verbatim>\<open>uri2sql.js\<close> turns the parsed query of a URI into an SQL predicate and an
  array of bind values. The query is a JavaScript object. The model takes it as the list
  of its \<open>(key, value)\<close> pairs in the order in which \<^verbatim>\<open>for (var col in query)\<close> enumerates
  them. A value is a scalar (a string or a number primitive) or a sub-object of
  \<open>operator: scalar\<close> pairs, again in enumeration order. Other JavaScript values (arrays,
  booleans, null, undefined, deeper nesting) are outside the model.

  A JavaScript string is modelled as a \<open>string\<close>: one \<open>char\<close> per code unit, which covers
  the code units below 256.
\<close>

datatype jsnum = NaN | PosInfinity | NegInfinity | Finite rat

datatype scalar = Str string | Num jsnum

datatype qvalue = Scalar scalar | Ops "(string \<times> scalar) list"

type_synonym query = "(string \<times> qvalue) list"

text \<open>A record of the allow-list; the code reads only its \<^verbatim>\<open>column_name\<close>.\<close>

record column =
  column_name :: string

text \<open>
  What \<^verbatim>\<open>getValue\<close> returns and what the value array holds: the \<^verbatim>\<open>Number\<close> object
  \<^verbatim>\<open>new Number(param)\<close> (kept with its operand, the number itself is never inspected
  again), a string, or \<^verbatim>\<open>undefined\<close> when the function falls off its end.
\<close>

datatype outval = ONumber scalar | OString string | OUndefined

text \<open>
  The exceptions. The code throws strings:
  \<^verbatim>\<open>"ERROR: missing value parameter"\<close> is \<open>MissingValue\<close>,
  \<^verbatim>\<open>"ERROR: invalid value in query: " + param\<close> is \<open>InvalidValue param\<close>,
  \<^verbatim>\<open>"ERROR: invalid column name: " + colName\<close> is \<open>UnknownColumn colName\<close>,
  \<^verbatim>\<open>"ERROR: incorrect $sort parameter value: " + query[col]\<close> is \<open>InvalidSort\<close> of that value.
  \<open>TypeError\<close> is the runtime's own exception when \<^verbatim>\<open>split\<close> is called on a value that
  has no such method.
\<close>

datatype error =
    MissingValue
  | InvalidValue string
  | UnknownColumn string
  | InvalidSort qvalue
  | TypeError

section \<open>String primitives of the runtime\<close>

definition charAt :: "string \<Rightarrow> nat \<Rightarrow> string" where
  "charAt s i = (if i < length s then [s ! i] else [])"

definition substring :: "string \<Rightarrow> nat \<Rightarrow> string" where
  "substring s i = drop i s"

definition str_includes :: "string \<Rightarrow> char \<Rightarrow> bool" where
  "str_includes s c = (c \<in> set s)"

text \<open>\<^verbatim>\<open>s.split(":")\<close>: the segments between the separators; never an empty array.\<close>

fun split :: "char \<Rightarrow> string \<Rightarrow> string list" where
  "split c [] = [[]]"
| "split c (x # xs) =
     (if x = c then [] # split c xs
      else (case split c xs of
              [] \<Rightarrow> [[x]]
            | seg # segs \<Rightarrow> (x # seg) # segs))"

text \<open>The decimal text of a counter, as \<^verbatim>\<open>subs + (substitution++)\<close> appends it.\<close>

definition digit_char :: "nat \<Rightarrow> char" where
  "digit_char d = ''0123456789'' ! d"

fun toString :: "nat \<Rightarrow> string" where
  "toString n =
     (if n < 10 then [digit_char n]
      else toString (n div 10) @ [digit_char (n mod 10)])"

declare toString.simps [simp del]

subsection \<open>Which strings convert to a number\<close>

text \<open>
  Modelled from the language standard (ECMA-262, StringToNumber), since \<^verbatim>\<open>new Number\<close>
  is a built-in of the runtime: a string converts to a number other than NaN exactly when,
  with white space trimmed at both ends, it is empty or a \<open>StrNumericLiteral\<close>.
\<close>

definition is_digit :: "char \<Rightarrow> bool" where
  "is_digit c = (c \<in> set ''0123456789'')"

definition is_hex_digit :: "char \<Rightarrow> bool" where
  "is_hex_digit c = (c \<in> set ''0123456789abcdefABCDEF'')"

definition is_octal_digit :: "char \<Rightarrow> bool" where
  "is_octal_digit c = (c \<in> set ''01234567'')"

definition is_binary_digit :: "char \<Rightarrow> bool" where
  "is_binary_digit c = (c \<in> set ''01'')"

text \<open>
  The white space and line terminators of the standard among the code units below 256:
  tab, line feed, vertical tab, form feed, carriage return, space and no-break space.
\<close>

definition is_white_space :: "char \<Rightarrow> bool" where
  "is_white_space c =
     (c \<in> set [CHR 0x09, CHR 0x0A, CHR 0x0B, CHR 0x0C, CHR 0x0D, CHR 0x20, CHR 0xA0])"

definition trim :: "string \<Rightarrow> string" where
  "trim s = rev (dropWhile is_white_space (rev (dropWhile is_white_space s)))"

definition strip_sign :: "string \<Rightarrow> string" where
  "strip_sign s =
     (case s of
        [] \<Rightarrow> []
      | c # r \<Rightarrow> if c = CHR ''+'' \<or> c = CHR ''-'' then r else s)"

definition signed_integer :: "string \<Rightarrow> bool" where
  "signed_integer s = (strip_sign s \<noteq> [] \<and> list_all is_digit (strip_sign s))"

definition exponent_part :: "string \<Rightarrow> bool" where
  "exponent_part s =
     (case s of
        [] \<Rightarrow> False
      | c # r \<Rightarrow> (c = CHR ''e'' \<or> c = CHR ''E'') \<and> signed_integer r)"

definition unsigned_decimal :: "string \<Rightarrow> bool" where
  "unsigned_decimal s =
     (let ip = takeWhile is_digit s; r1 = dropWhile is_digit s in
      case r1 of
        [] \<Rightarrow> ip \<noteq> []
      | c # r \<Rightarrow>
          if c = CHR ''.'' then
            (let fp = takeWhile is_digit r; r2 = dropWhile is_digit r in
             (ip \<noteq> [] \<or> fp \<noteq> []) \<and> (r2 = [] \<or> exponent_part r2))
          else ip \<noteq> [] \<and> exponent_part r1)"

definition str_decimal_literal :: "string \<Rightarrow> bool" where
  "str_decimal_literal s =
     (strip_sign s = ''Infinity'' \<or> unsigned_decimal (strip_sign s))"

definition non_decimal_integer_literal :: "string \<Rightarrow> bool" where
  "non_decimal_integer_literal s =
     (case s of
        z # k # ds \<Rightarrow>
          z = CHR ''0'' \<and> ds \<noteq> [] \<and>
          (if k = CHR ''x'' \<or> k = CHR ''X'' then list_all is_hex_digit ds
           else if k = CHR ''o'' \<or> k = CHR ''O'' then list_all is_octal_digit ds
           else if k = CHR ''b'' \<or> k = CHR ''B'' then list_all is_binary_digit ds
           else False)
      | _ \<Rightarrow> False)"

definition string_is_number :: "string \<Rightarrow> bool" where
  "string_is_number s =
     (trim s = [] \<or> str_decimal_literal (trim s) \<or> non_decimal_integer_literal (trim s))"

text \<open>\<^verbatim>\<open>isNaN(new Number(param))\<close> for a scalar.\<close>

fun isNaN :: "scalar \<Rightarrow> bool" where
  "isNaN (Str s) = (\<not> string_is_number s)"
| "isNaN (Num x) = (x = NaN)"

section \<open>The value normalizer and the column check\<close>

text \<open>
  \<^verbatim>\<open>getValue\<close>. A number primitive has no \<^verbatim>\<open>length\<close>, so the first test is false for it;
  a NaN primitive is neither \<^verbatim>\<open>"NULL"\<close> nor a string, and the function returns nothing.
\<close>

fun getValue :: "scalar \<Rightarrow> error + outval" where
  "getValue (Str s) =
     (if length s = 0 then Inl MissingValue
      else if \<not> isNaN (Str s) then Inr (ONumber (Str s))
      else if s = ''NULL'' then Inr (OString s)
      else if str_includes s (CHR 0x27) \<or> str_includes s (CHR '';'') then Inl (InvalidValue s)
      else Inr (OString s))"
| "getValue (Num x) =
     (if \<not> isNaN (Num x) then Inr (ONumber (Num x))
      else Inr OUndefined)"

text \<open>\<^verbatim>\<open>checkCol\<close>, with the allow-list \<^verbatim>\<open>columns\<close> of the enclosing call as an argument.\<close>

definition checkCol :: "column list \<Rightarrow> string \<Rightarrow> error + unit" where
  "checkCol columns colName =
     (if length columns > 0 then
        (if find (\<lambda>c. column_name c = colName) columns = None
         then Inl (UnknownColumn colName)
         else Inr ())
      else Inr ())"

section \<open>The operator table\<close>

definition operators :: "string list" where
  "operators = [''eq'', ''ne'', ''lt'', ''gte'', ''gt'', ''lte'', ''in'', ''like'', ''tween'', ''is'']"

definition sqlop :: "string list list" where
  "sqlop =
     [[''= '', ''!= '', ''< '', ''>= '', ''> '', ''<= '', ''IN ('', ''LIKE '', ''BETWEEN '', ''IS ''],
      [''!= '', ''= '', ''>= '', ''< '', ''<= '', ''> '', ''NOT IN ('', ''NOT LIKE '', ''NOT BETWEEN '',
       ''IS NOT '']]"

text \<open>\<^verbatim>\<open>operators.indexOf(o)\<close>; the code calls it only after \<^verbatim>\<open>operators.includes(o)\<close>.\<close>

definition indexOf :: "string list \<Rightarrow> string \<Rightarrow> nat" where
  "indexOf xs x = length (takeWhile (\<lambda>y. y \<noteq> x) xs)"

section \<open>The predicate compiler\<close>

text \<open>The variables of \<^verbatim>\<open>uri2sql\<close> that the loop updates.\<close>

record state =
  sql :: string
  sort_clause :: string
  valueArray :: "outval list"
  substitution :: nat

definition init :: state where
  "init = \<lparr>sql = [], sort_clause = [], valueArray = [], substitution = 1\<rparr>"

text \<open>A loop whose body may throw: the first exception ends it.\<close>

fun for_each :: "('s \<Rightarrow> 'a \<Rightarrow> error + 's) \<Rightarrow> 's \<Rightarrow> 'a list \<Rightarrow> error + 's" where
  "for_each f s [] = Inr s"
| "for_each f s (x # xs) =
     (case f s x of
        Inl e \<Rightarrow> Inl e
      | Inr s' \<Rightarrow> for_each f s' xs)"

text \<open>
  \<^verbatim>\<open>val.split(":")\<close> on what \<^verbatim>\<open>getValue\<close> returned: only a string has the method.
\<close>

fun split_value :: "outval \<Rightarrow> error + string list" where
  "split_value (OString s) = Inr (split (CHR '':'') s)"
| "split_value (ONumber p) = Inl TypeError"
| "split_value OUndefined = Inl TypeError"

text \<open>The body of \<^verbatim>\<open>sortCols.forEach\<close>.\<close>

definition sort_step :: "column list \<Rightarrow> state \<Rightarrow> string \<Rightarrow> error + state" where
  "sort_step columns st sortCol0 =
     (let (sortDir, sortCol) =
            (if charAt sortCol0 0 = ''-'' then ('' DESC'', substring sortCol0 1)
             else ([], sortCol0))
      in case checkCol columns sortCol of
           Inl e \<Rightarrow> Inl e
         | Inr _ \<Rightarrow>
             (let sort1 = (if sort_clause st = [] then ''ORDER BY ''
                           else sort_clause st @ '', '')
              in Inr (st\<lparr>sort_clause := sort1 @ sortCol @ sortDir\<rparr>)))"

text \<open>The body of the \<^verbatim>\<open>forEach\<close> of the \<^verbatim>\<open>in\<close> operator; \<open>first\<close> travels with the state.\<close>

definition in_step :: "string \<Rightarrow> state \<times> bool \<Rightarrow> string \<Rightarrow> error + state \<times> bool" where
  "in_step subs sf v =
     (case sf of (st, first) \<Rightarrow>
        Inr (st\<lparr>sql := sql st @ (if first then [] else '', '') @ subs @ toString (substitution st),
                substitution := substitution st + 1,
                valueArray := valueArray st @ [OString v]\<rparr>,
             False))"

text \<open>
  The body of \<^verbatim>\<open>for (var op in query[col])\<close>. The flag \<^verbatim>\<open>negate\<close> is set before this loop
  and only ever raised inside it, so it travels with the state; \<open>tok\<close> is the variable
  \<^verbatim>\<open>o\<close> of the code.
\<close>

definition op_step :: "string \<Rightarrow> state \<times> nat \<Rightarrow> string \<times> scalar \<Rightarrow> error + state \<times> nat" where
  "op_step subs sn kv =
     (case sn of (st, negate0) \<Rightarrow> case kv of (op, v) \<Rightarrow>
      let (negate, tok) = (if charAt op 0 = ''-'' then (1, substring op 1) else (negate0, op));
          sql1 = sql st @ (if tok \<in> set operators then sqlop ! negate ! indexOf operators tok
                           else ''= '');
          n = substitution st
      in if tok = ''is'' then Inr (st\<lparr>sql := sql1 @ ''NULL ''\<rparr>, negate)
         else if tok = ''tween'' then
           (let sql2 = sql1 @ subs @ toString n @ '' AND '' @ subs @ toString (n + 1) @ '' '' in
            case getValue v of
              Inl e \<Rightarrow> Inl e
            | Inr val \<Rightarrow>
                (case split_value val of
                   Inl e \<Rightarrow> Inl e
                 | Inr varr \<Rightarrow>
                     if 0 < length varr then
                       if 1 < length varr then
                         Inr (st\<lparr>sql := sql2, substitution := n + 2,
                                 valueArray := valueArray st @ [OString (varr ! 0), OString (varr ! 1)]\<rparr>,
                              negate)
                       else Inl MissingValue
                     else Inl MissingValue))
         else if tok = ''in'' then
           (case getValue v of
              Inl e \<Rightarrow> Inl e
            | Inr val \<Rightarrow>
                (case split_value val of
                   Inl e \<Rightarrow> Inl e
                 | Inr segs \<Rightarrow>
                     (case for_each (in_step subs) (st\<lparr>sql := sql1\<rparr>, True) segs of
                        Inl e \<Rightarrow> Inl e
                      | Inr (st', _) \<Rightarrow> Inr (st'\<lparr>sql := sql st' @ '') ''\<rparr>, negate))))
         else
           (case getValue v of
              Inl e \<Rightarrow> Inl e
            | Inr val \<Rightarrow>
                Inr (st\<lparr>sql := sql1 @ subs @ toString n @ '' '', substitution := n + 1,
                        valueArray := valueArray st @ [val]\<rparr>,
                     negate)))"

text \<open>
  The body of \<^verbatim>\<open>for (var col in query)\<close>. \<^verbatim>\<open>typeof(query[col])\<close> is \<^verbatim>\<open>"string"\<close> for
  \<open>Scalar (Str s)\<close>, \<^verbatim>\<open>"number"\<close> for \<open>Scalar (Num x)\<close> and \<^verbatim>\<open>"object"\<close> for \<open>Ops kvs\<close>.
\<close>

definition entry_step :: "string \<Rightarrow> column list \<Rightarrow> state \<Rightarrow> string \<times> qvalue \<Rightarrow> error + state" where
  "entry_step subs columns st kv =
     (case kv of (col, v) \<Rightarrow>
      if charAt col 0 = ''$'' then
        (if col = ''$sort'' then
           (case v of
              Scalar (Str s) \<Rightarrow>
                (case getValue (Str s) of
                   Inl e \<Rightarrow> Inl e
                 | Inr val \<Rightarrow>
                     (case split_value val of
                        Inl e \<Rightarrow> Inl e
                      | Inr sortCols \<Rightarrow> for_each (sort_step columns) st sortCols))
            | _ \<Rightarrow> Inl (InvalidSort v))
         else Inr st)
      else
        (case checkCol columns col of
           Inl e \<Rightarrow> Inl e
         | Inr _ \<Rightarrow>
             (let sql1 = (if sql st = [] then sql st @ ''WHERE '' else sql st @ ''AND '');
                  sql2 = sql1 @ col @ '' '';
                  n = substitution st
              in case v of
                   Scalar p \<Rightarrow>
                     (case getValue p of
                        Inl e \<Rightarrow> Inl e
                      | Inr val \<Rightarrow>
                          Inr (st\<lparr>sql := sql2 @ ''= '' @ subs @ toString n @ '' '',
                                  substitution := n + 1,
                                  valueArray := valueArray st @ [val]\<rparr>))
                 | Ops kvs \<Rightarrow>
                     (case for_each (op_step subs) (st\<lparr>sql := sql2\<rparr>, 0) kvs of
                        Inl e \<Rightarrow> Inl e
                      | Inr (st', _) \<Rightarrow> Inr st'))))"

text \<open>The result object \<^verbatim>\<open>{'sql': sql, 'values': valueArray}\<close>.\<close>

record result =
  r_sql :: string
  r_values :: "outval list"

text \<open>
  \<^verbatim>\<open>uri2sql(query, columns)\<close>; \<open>subs\<close> is the module's placeholder symbol at the time of
  the call (\<^verbatim>\<open>"$"\<close> unless \<^verbatim>\<open>setsubs\<close> changed it).
\<close>

definition uri2sql :: "string \<Rightarrow> query \<Rightarrow> column list \<Rightarrow> error + result" where
  "uri2sql subs query columns =
     (case for_each (entry_step subs columns) init query of
        Inl e \<Rightarrow> Inl e
      | Inr st \<Rightarrow> Inr \<lparr>r_sql = sql st @ sort_clause st, r_values = valueArray st\<rparr>)"

section \<open>Notions used to state the properties\<close>

text \<open>\<^verbatim>\<open>xs.join(sep)\<close>: the texts of a list with a separator between neighbours.\<close>

fun join :: "string \<Rightarrow> string list \<Rightarrow> string" where
  "join sep [] = []"
| "join sep [x] = x"
| "join sep (x # y # ys) = x @ sep @ join sep (y # ys)"

text \<open>The placeholder number \<open>n\<close>, as the code writes it: \<^verbatim>\<open>subs + n\<close>.\<close>

definition placeholder :: "string \<Rightarrow> nat \<Rightarrow> string" where
  "placeholder subs n = subs @ toString n"

text \<open>
  What the first lines of the operator loop compute from an operator key and the flag as it
  stands: the token without a leading \<^verbatim>\<open>-\<close>, the flag afterwards, and the operator text that
  is appended.
\<close>

definition key_token :: "string \<Rightarrow> string" where
  "key_token op = (if charAt op 0 = ''-'' then substring op 1 else op)"

definition key_negate :: "nat \<Rightarrow> string \<Rightarrow> nat" where
  "key_negate negate0 op = (if charAt op 0 = ''-'' then 1 else negate0)"

definition key_text :: "nat \<Rightarrow> string \<Rightarrow> string" where
  "key_text negate0 op =
     (if key_token op \<in> set operators
      then sqlop ! key_negate negate0 op ! indexOf operators (key_token op)
      else ''= '')"

text \<open>
  The inverse of an operator text, pair by pair as the specification lists them:
  \<^verbatim>\<open>=\<close> and \<^verbatim>\<open>!=\<close>, \<^verbatim>\<open><\<close> and \<^verbatim>\<open>>=\<close>, \<^verbatim>\<open>>\<close> and \<^verbatim>\<open><=\<close>, and each of
  \<^verbatim>\<open>IN (\<close>, \<^verbatim>\<open>LIKE\<close>, \<^verbatim>\<open>BETWEEN\<close> with its \<^verbatim>\<open>NOT\<close> form, \<^verbatim>\<open>IS\<close> with \<^verbatim>\<open>IS NOT\<close>.
\<close>

definition sql_complement :: "string \<Rightarrow> string" where
  "sql_complement t =
     (if t = ''= '' then ''!= '' else if t = ''!= '' then ''= ''
      else if t = ''< '' then ''>= '' else if t = ''>= '' then ''< ''
      else if t = ''> '' then ''<= '' else if t = ''<= '' then ''> ''
      else if t = ''IN ('' then ''NOT IN ('' else if t = ''NOT IN ('' then ''IN (''
      else if t = ''LIKE '' then ''NOT LIKE '' else if t = ''NOT LIKE '' then ''LIKE ''
      else if t = ''BETWEEN '' then ''NOT BETWEEN '' else if t = ''NOT BETWEEN '' then ''BETWEEN ''
      else if t = ''IS '' then ''IS NOT '' else if t = ''IS NOT '' then ''IS ''
      else t)"

text \<open>The characters that a string which converts to a number is made of.\<close>

definition numeric_char :: "char \<Rightarrow> bool" where
  "numeric_char c = (is_white_space c \<or> is_hex_digit c \<or> c \<in> set ''+-.xXoOInfity'')"

text \<open>The column that a segment of the sort directive names: the segment without a leading \<^verbatim>\<open>-\<close>.\<close>

definition sort_column :: "string \<Rightarrow> string" where
  "sort_column seg = (if charAt seg 0 = ''-'' then substring seg 1 else seg)"

text \<open>
  The placeholders of an SQL text for the placeholder symbol \<open>c\<close>: every occurrence of the
  symbol that is followed by decimal digits, read with the longest run of digits, in the
  order of appearance.
\<close>

definition digit_value :: "char \<Rightarrow> nat" where
  "digit_value c = length (takeWhile (\<lambda>d. d \<noteq> c) ''0123456789'')"

definition read_number :: "string \<Rightarrow> nat" where
  "read_number ds = foldl (\<lambda>a d. 10 * a + digit_value d) 0 ds"

function placeholders :: "char \<Rightarrow> string \<Rightarrow> nat list" where
  "placeholders c [] = []"
| "placeholders c (x # xs) =
     (if x = c \<and> takeWhile is_digit xs \<noteq> []
      then read_number (takeWhile is_digit xs) # placeholders c (dropWhile is_digit xs)
      else placeholders c xs)"
  by pat_completeness auto
termination
  by (relation "measure (\<lambda>(c, s). length s)") (auto simp: length_dropWhile_le less_Suc_eq_le)

declare placeholders.simps(2) [simp del]

text \<open>
  A text \<open>p\<close> emits the placeholders \<open>ns\<close> when they are the placeholders it adds in front of
  any text that does not go on with a digit.
\<close>

definition ok_start :: "string \<Rightarrow> bool" where
  "ok_start t = (case t of [] \<Rightarrow> True | x # _ \<Rightarrow> \<not> is_digit x)"

definition emits :: "char \<Rightarrow> string \<Rightarrow> nat list \<Rightarrow> bool" where
  "emits c p ns = (\<forall>t. ok_start t \<longrightarrow> placeholders c (p @ t) = ns @ placeholders c t)"

text \<open>The characters of the keywords and operator texts that the compiler writes itself.\<close>

definition sql_text_char :: "char \<Rightarrow> bool" where
  "sql_text_char c = (c \<in> set ''ABCDEFGHIJKLMNOPQRSTUVWXYZ =!<>(),'')"

text \<open>All the operator texts that an operator key can select.\<close>

definition operator_texts :: "string list" where
  "operator_texts = ''= '' # sqlop ! 0 @ sqlop ! 1"

text \<open>
  The names that go into the SQL text unquoted are free of the placeholder symbol: every
  filter column, and the string of every \<^verbatim>\<open>$sort\<close> entry.
\<close>

definition sort_text :: "qvalue \<Rightarrow> string" where
  "sort_text v = (case v of Scalar (Str s) \<Rightarrow> s | _ \<Rightarrow> [])"

definition entry_free :: "char \<Rightarrow> string \<times> qvalue \<Rightarrow> bool" where
  "entry_free c kv =
     (case kv of (k, v) \<Rightarrow>
        if charAt k 0 = ''$'' then (if k = ''$sort'' then c \<notin> set (sort_text v) else True)
        else c \<notin> set k)"

definition symbol_free :: "char \<Rightarrow> query \<Rightarrow> bool" where
  "symbol_free c query = list_all (entry_free c) query"

text \<open>
  The state of the loop is numbered when the text so far emits the placeholders 1 up to
  the counter, one value has been pushed for each of them, and the sort clause is free of
  the symbol.
\<close>

definition numbered :: "char \<Rightarrow> state \<Rightarrow> bool" where
  "numbered c st =
     (emits c (sql st) [1 ..< substitution st]
      \<and> Suc (length (valueArray st)) = substitution st
      \<and> c \<notin> set (sort_clause st) \<and> ok_start (sort_clause st))"

text \<open>A bound value is clean when it is no string with a quote or a semicolon in it.\<close>

fun clean_value :: "outval \<Rightarrow> bool" where
  "clean_value (OString s) = (CHR 0x27 \<notin> set s \<and> CHR '';'' \<notin> set s)"
| "clean_value (ONumber p) = True"
| "clean_value OUndefined = True"

section \<open>Facts about the loops\<close>

lemma for_each_append:
  "for_each f s (xs @ ys) =
     (case for_each f s xs of Inl e \<Rightarrow> Inl e | Inr s' \<Rightarrow> for_each f s' ys)"
  by (induction xs arbitrary: s) (auto split: sum.splits)

lemma for_each_skip:
  assumes "\<And>s. f s x = Inr s"
  shows "for_each f s (xs @ x # ys) = for_each f s (xs @ ys)"
  by (simp add: for_each_append assms split: sum.splits)

lemma join_Cons: "join sep (x # xs) = x @ concat (map ((@) sep) xs)"
  by (induction xs arbitrary: x) simp_all

lemma in_step_apply:
  "in_step subs (st, first) v =
     Inr (st\<lparr>sql := sql st @ (if first then [] else '', '') @ placeholder subs (substitution st),
             substitution := substitution st + 1,
             valueArray := valueArray st @ [OString v]\<rparr>, False)"
  by (simp add: in_step_def placeholder_def)

lemma in_loop_rest:
  "for_each (in_step subs) (st, False) segs =
     Inr (st\<lparr>sql := sql st @ concat (map (\<lambda>i. '', '' @ placeholder subs i)
                                   [substitution st ..< substitution st + length segs]),
             substitution := substitution st + length segs,
             valueArray := valueArray st @ map OString segs\<rparr>, False)"
proof (induction segs arbitrary: st)
  case Nil
  show ?case by simp
next
  case (Cons x segs)
  show ?case
    by (simp add: in_step_apply Cons.IH upt_conv_Cons del: upt_Suc)
qed

lemma in_loop:
  "for_each (in_step subs) (st, True) segs =
     Inr (st\<lparr>sql := sql st @ join '', '' (map (placeholder subs)
                                   [substitution st ..< substitution st + length segs]),
             substitution := substitution st + length segs,
             valueArray := valueArray st @ map OString segs\<rparr>, segs = [])"
proof (cases segs)
  case Nil
  then show ?thesis by simp
next
  case (Cons x xs)
  then show ?thesis
    by (simp add: in_step_apply in_loop_rest upt_conv_Cons join_Cons comp_def del: upt_Suc)
qed

lemma op_step_is:
  assumes "key_token op = ''is''"
  shows "op_step subs (st, n0) (op, v) =
           Inr (st\<lparr>sql := sql st @ key_text n0 op @ ''NULL ''\<rparr>, key_negate n0 op)"
proof (cases "charAt op 0 = ''-''")
  case True
  with assms show ?thesis
    by (simp add: op_step_def key_token_def key_negate_def key_text_def)
next
  case False
  with assms show ?thesis
    by (simp add: op_step_def key_token_def key_negate_def key_text_def)
qed

lemma op_step_tween:
  assumes "key_token op = ''tween''"
  shows "op_step subs (st, n0) (op, v) =
           (case getValue v of
              Inl e \<Rightarrow> Inl e
            | Inr val \<Rightarrow>
               (case split_value val of
                  Inl e \<Rightarrow> Inl e
                | Inr varr \<Rightarrow>
                    if 1 < length varr then
                      Inr (st\<lparr>sql := sql st @ key_text n0 op @ placeholder subs (substitution st)
                                        @ '' AND '' @ placeholder subs (substitution st + 1) @ '' '',
                              substitution := substitution st + 2,
                              valueArray := valueArray st @ [OString (varr ! 0), OString (varr ! 1)]\<rparr>,
                           key_negate n0 op)
                    else Inl MissingValue))"
proof (cases "charAt op 0 = ''-''")
  case True
  with assms show ?thesis
    by (simp add: op_step_def key_token_def key_negate_def key_text_def placeholder_def Let_def
             split: sum.splits)
next
  case False
  with assms show ?thesis
    by (simp add: op_step_def key_token_def key_negate_def key_text_def placeholder_def Let_def
             split: sum.splits)
qed

lemma op_step_in:
  assumes "key_token op = ''in''"
  shows "op_step subs (st, n0) (op, v) =
           (case getValue v of
              Inl e \<Rightarrow> Inl e
            | Inr val \<Rightarrow>
               (case split_value val of
                  Inl e \<Rightarrow> Inl e
                | Inr segs \<Rightarrow>
                    Inr (st\<lparr>sql := sql st @ key_text n0 op
                                    @ join '', '' (map (placeholder subs)
                                         [substitution st ..< substitution st + length segs])
                                    @ '') '',
                            substitution := substitution st + length segs,
                            valueArray := valueArray st @ map OString segs\<rparr>,
                         key_negate n0 op)))"
proof (cases "charAt op 0 = ''-''")
  case True
  with assms show ?thesis
    by (simp add: op_step_def key_token_def key_negate_def key_text_def in_loop Let_def
             split: sum.splits)
next
  case False
  with assms show ?thesis
    by (simp add: op_step_def key_token_def key_negate_def key_text_def in_loop Let_def
             split: sum.splits)
qed

lemma op_step_other:
  assumes "key_token op \<noteq> ''is''" "key_token op \<noteq> ''tween''" "key_token op \<noteq> ''in''"
  shows "op_step subs (st, n0) (op, v) =
           (case getValue v of
              Inl e \<Rightarrow> Inl e
            | Inr val \<Rightarrow>
                Inr (st\<lparr>sql := sql st @ key_text n0 op @ placeholder subs (substitution st) @ '' '',
                        substitution := substitution st + 1,
                        valueArray := valueArray st @ [val]\<rparr>,
                     key_negate n0 op))"
proof (cases "charAt op 0 = ''-''")
  case True
  with assms show ?thesis
    by (simp add: op_step_def key_token_def key_negate_def key_text_def placeholder_def Let_def
             split: sum.splits)
next
  case False
  with assms show ?thesis
    by (simp add: op_step_def key_token_def key_negate_def key_text_def placeholder_def Let_def
             split: sum.splits)
qed

section \<open>Facts about the operator table\<close>

lemma operators_iff:
  "tok \<in> set operators \<longleftrightarrow>
     tok = ''eq'' \<or> tok = ''ne'' \<or> tok = ''lt'' \<or> tok = ''gte'' \<or> tok = ''gt''
    \<or> tok = ''lte'' \<or> tok = ''in'' \<or> tok = ''like'' \<or> tok = ''tween'' \<or> tok = ''is''"
  unfolding operators_def by (simp only: list.set insert_iff empty_iff simp_thms)

lemma idx: "indexOf operators ''eq'' = 0" "indexOf operators ''ne'' = 1" "indexOf operators ''lt'' = 2"
  "indexOf operators ''gte'' = 3" "indexOf operators ''gt'' = 4" "indexOf operators ''lte'' = 5"
  "indexOf operators ''in'' = 6" "indexOf operators ''like'' = 7" "indexOf operators ''tween'' = 8"
  "indexOf operators ''is'' = 9"
  by (simp_all add: indexOf_def operators_def)

lemma operators_unmarked: "tok \<in> set operators \<Longrightarrow> charAt tok 0 \<noteq> ''-''"
  unfolding operators_iff by (elim disjE; simp add: charAt_def)

lemma table_rows_inverse:
  assumes "tok \<in> set operators"
  shows "sqlop ! 1 ! indexOf operators tok = sql_complement (sqlop ! 0 ! indexOf operators tok)
       \<and> sqlop ! 0 ! indexOf operators tok = sql_complement (sqlop ! 1 ! indexOf operators tok)"
  using assms unfolding operators_iff
  by (elim disjE; simp add: idx sqlop_def sql_complement_def)

lemma key_marked [simp]:
  "key_token (CHR ''-'' # tok) = tok" "key_negate n0 (CHR ''-'' # tok) = 1"
  by (simp_all add: key_token_def key_negate_def charAt_def substring_def)

lemma key_unmarked:
  "charAt op 0 \<noteq> ''-'' \<Longrightarrow> key_token op = op"
  "charAt op 0 \<noteq> ''-'' \<Longrightarrow> key_negate n0 op = n0"
  by (simp_all add: key_token_def key_negate_def)

lemma op_step_sql:
  assumes "op_step subs (st, n0) (op, v) = Inr (st', n')"
  shows "\<exists>r. sql st' = sql st @ key_text n0 op @ r" and "n' = key_negate n0 op"
proof -
  consider "key_token op = ''is''" | "key_token op = ''tween''" | "key_token op = ''in''"
    | "key_token op \<noteq> ''is''" "key_token op \<noteq> ''tween''" "key_token op \<noteq> ''in''"
    by blast
  then have "(\<exists>r. sql st' = sql st @ key_text n0 op @ r) \<and> n' = key_negate n0 op"
  proof cases
    case 1
    with assms show ?thesis by (auto simp: op_step_is)
  next
    case 2
    with assms show ?thesis by (auto simp: op_step_tween split: sum.splits if_splits)
  next
    case 3
    with assms show ?thesis by (auto simp: op_step_in split: sum.splits)
  next
    case 4
    with assms show ?thesis by (auto simp: op_step_other split: sum.splits)
  qed
  then show "\<exists>r. sql st' = sql st @ key_text n0 op @ r" and "n' = key_negate n0 op"
    by simp_all
qed

section \<open>Negation of an operator\<close>

text \<open>
  What the table holds and what the selection does in every state. For each of the ten
  tokens, the text of the negated row is the inverse of the text of the normal row and the
  other way round. An operator key with a leading \<^verbatim>\<open>-\<close> has the marker stripped, appends
  the text of the negated row and leaves the flag at 1. A bare token appends the text of
  the row that the flag stands at, and leaves the flag as it is.
\<close>

lemma selection_follows_flag:
  assumes "tok \<in> set operators"
  shows "sqlop ! 1 ! indexOf operators tok = sql_complement (sqlop ! 0 ! indexOf operators tok)
       \<and> sqlop ! 0 ! indexOf operators tok = sql_complement (sqlop ! 1 ! indexOf operators tok)
       \<and> (op_step subs (st, n0) (CHR ''-'' # tok, v) = Inr (st', n') \<longrightarrow>
           (\<exists>r. sql st' = sql st @ sqlop ! 1 ! indexOf operators tok @ r) \<and> n' = 1)
       \<and> (op_step subs (st, n0) (tok, v) = Inr (st', n') \<longrightarrow>
           (\<exists>r. sql st' = sql st @ sqlop ! n0 ! indexOf operators tok @ r) \<and> n' = n0)"
proof -
  have t1: "key_text n0 (CHR ''-'' # tok) = sqlop ! 1 ! indexOf operators tok"
    using assms by (simp add: key_text_def)
  have m: "op_step subs (st, n0) (CHR ''-'' # tok, v) = Inr (st', n') \<longrightarrow>
           (\<exists>r. sql st' = sql st @ sqlop ! 1 ! indexOf operators tok @ r) \<and> n' = 1"
    using op_step_sql [of subs st n0 "CHR ''-'' # tok" v st' n'] t1 by simp
  have t0: "key_text n0 tok = sqlop ! n0 ! indexOf operators tok" "key_negate n0 tok = n0"
    using assms operators_unmarked [OF assms] by (simp_all add: key_text_def key_unmarked)
  have u: "op_step subs (st, n0) (tok, v) = Inr (st', n') \<longrightarrow>
           (\<exists>r. sql st' = sql st @ sqlop ! n0 ! indexOf operators tok @ r) \<and> n' = n0"
    using op_step_sql [of subs st n0 tok v st' n'] t0 by simp
  note T = table_rows_inverse [OF assms]
  show ?thesis
    by (rule conjI [OF conjunct1 [OF T] conjI [OF conjunct2 [OF T] conjI [OF m u]]])
qed

text \<open>
  Claim C8. The token and its \<^verbatim>\<open>-\<close> form are to select inverse texts: the bare token the
  normal row, the marked key the negated row. The table is as the claim has it, and so is
  the selection for the first key of a sub-object. The code breaks the claim at a later
  key: \<^verbatim>\<open>negate\<close> is set to 0 once per column and raised by a marked key, and nothing lowers
  it before the next key of the same sub-object. In \<^verbatim>\<open>{a: {"-gt": "x", "lt": "y"}}\<close> the bare
  token \<^verbatim>\<open>lt\<close> selects \<^verbatim>\<open>>= \<close>, the text of the negated row, where the table's normal row
  has \<^verbatim>\<open>< \<close>; the SQL text is the one that \<^verbatim>\<open>{a: {"-gt": "x", "-lt": "y"}}\<close> gives.
\<close>

theorem negate_flag_is_never_lowered:
  "sqlop ! 0 ! indexOf operators ''lt'' = ''< ''
   \<and> sqlop ! 1 ! indexOf operators ''lt'' = ''>= ''
   \<and> uri2sql ''$'' [(''a'', Ops [(''lt'', Str ''y'')])] []
       = Inr \<lparr>r_sql = ''WHERE a < $1 '', r_values = [OString ''y'']\<rparr>
   \<and> uri2sql ''$'' [(''a'', Ops [(''-gt'', Str ''x''), (''lt'', Str ''y'')])] []
       = Inr \<lparr>r_sql = ''WHERE a <= $1 >= $2 '', r_values = [OString ''x'', OString ''y'']\<rparr>
   \<and> uri2sql ''$'' [(''a'', Ops [(''-gt'', Str ''x''), (''-lt'', Str ''y'')])] []
       = Inr \<lparr>r_sql = ''WHERE a <= $1 >= $2 '', r_values = [OString ''x'', OString ''y'']\<rparr>
   \<and> op_step ''$'' (init, 1) (''lt'', Str ''y'')
       = Inr (\<lparr>sql = ''>= $1 '', sort_clause = [], valueArray = [OString ''y''],
                substitution = 2\<rparr>, 1)"
  by code_simp

section \<open>Facts about values\<close>

lemma getValue_plain_string:
  assumes "s \<noteq> []" "\<not> string_is_number s" "CHR 0x27 \<notin> set s" "CHR '';'' \<notin> set s"
  shows "getValue (Str s) = Inr (OString s)"
  using assms by (simp add: str_includes_def)

lemma split_nonempty: "split c s \<noteq> []"
  by (induction s) (auto split: list.splits)

lemma outside_table:
  assumes "tok \<notin> set operators"
  shows "tok \<noteq> ''is''" "tok \<noteq> ''tween''" "tok \<noteq> ''in''"
  using assms unfolding operators_iff by simp_all

lemma digit_numeric: "is_digit c \<Longrightarrow> numeric_char c"
  unfolding is_digit_def numeric_char_def is_hex_digit_def by (simp, elim disjE; simp)

lemma octal_numeric: "is_octal_digit c \<Longrightarrow> numeric_char c"
  unfolding is_octal_digit_def numeric_char_def is_hex_digit_def by (simp, elim disjE; simp)

lemma binary_numeric: "is_binary_digit c \<Longrightarrow> numeric_char c"
  unfolding is_binary_digit_def numeric_char_def is_hex_digit_def by (simp, elim disjE; simp)

lemma hex_numeric: "is_hex_digit c \<Longrightarrow> numeric_char c"
  by (simp add: numeric_char_def)

lemma literal_numeric:
  "numeric_char (CHR ''+'')" "numeric_char (CHR ''-'')" "numeric_char (CHR ''.'')"
  "numeric_char (CHR ''e'')" "numeric_char (CHR ''E'')" "numeric_char (CHR ''0'')"
  "numeric_char (CHR ''x'')" "numeric_char (CHR ''X'')" "numeric_char (CHR ''o'')"
  "numeric_char (CHR ''O'')" "numeric_char (CHR ''b'')" "numeric_char (CHR ''B'')"
  by (simp_all add: numeric_char_def is_hex_digit_def)

lemma infinity_numeric: "list_all numeric_char ''Infinity''"
  by (simp add: numeric_char_def)

lemma in_dropWhile: "x \<in> set xs \<Longrightarrow> \<not> P x \<Longrightarrow> x \<in> set (dropWhile P xs)"
  by (induction xs) auto

lemma trim_chars:
  assumes "list_all numeric_char (trim s)"
  shows "list_all numeric_char s"
proof -
  have "numeric_char x" if "x \<in> set s" for x
  proof (cases "is_white_space x")
    case True
    then show ?thesis by (simp add: numeric_char_def)
  next
    case False
    with that have "x \<in> set (trim s)"
      by (simp add: trim_def in_dropWhile)
    with assms show ?thesis by (simp add: list_all_iff)
  qed
  then show ?thesis by (simp add: list_all_iff)
qed

lemma strip_sign_chars:
  assumes "list_all numeric_char (strip_sign s)"
  shows "list_all numeric_char s"
proof (cases s)
  case Nil
  then show ?thesis by simp
next
  case (Cons c r)
  with assms show ?thesis
    by (cases "c = CHR ''+'' \<or> c = CHR ''-''") (auto simp: strip_sign_def literal_numeric)
qed

lemma digits_chars: "list_all is_digit s \<Longrightarrow> list_all numeric_char s"
  by (simp add: list_all_iff digit_numeric)

lemma signed_integer_chars: "signed_integer s \<Longrightarrow> list_all numeric_char s"
  by (simp add: signed_integer_def strip_sign_chars digits_chars)

lemma exponent_part_chars: "exponent_part s \<Longrightarrow> list_all numeric_char s"
  by (cases s) (auto simp: exponent_part_def signed_integer_chars literal_numeric)

lemma takeWhile_digits: "list_all numeric_char (takeWhile is_digit s)"
  by (induction s) (simp_all add: digit_numeric)

lemma unsigned_decimal_chars:
  assumes "unsigned_decimal s"
  shows "list_all numeric_char s"
proof -
  have s: "s = takeWhile is_digit s @ dropWhile is_digit s"
    by simp
  have "list_all numeric_char (dropWhile is_digit s)"
  proof (cases "dropWhile is_digit s")
    case Nil
    then show ?thesis by (simp only: list.pred_inject)
  next
    case (Cons c r)
    show ?thesis
    proof (cases "c = CHR ''.''")
      case True
      have r: "r = takeWhile is_digit r @ dropWhile is_digit r"
        by simp
      from assms Cons True
      have "dropWhile is_digit r = [] \<or> exponent_part (dropWhile is_digit r)"
        by (simp add: unsigned_decimal_def Let_def)
      then have "list_all numeric_char (dropWhile is_digit r)"
        by (elim disjE) (simp_all only: list.pred_inject exponent_part_chars)
      then have "list_all numeric_char r"
        using takeWhile_digits [of r] by (subst r) (simp only: list_all_append simp_thms)
      with Cons True show ?thesis
        by (simp add: literal_numeric)
    next
      case False
      with assms Cons have "exponent_part (dropWhile is_digit s)"
        by (simp add: unsigned_decimal_def Let_def)
      then show ?thesis by (rule exponent_part_chars)
    qed
  qed
  then show ?thesis
    using takeWhile_digits [of s] by (subst s) (simp only: list_all_append simp_thms)
qed

lemma str_decimal_literal_chars: "str_decimal_literal s \<Longrightarrow> list_all numeric_char s"
  unfolding str_decimal_literal_def
  by (rule strip_sign_chars) (auto simp only: infinity_numeric unsigned_decimal_chars)

lemma non_decimal_chars:
  assumes "non_decimal_integer_literal s"
  shows "list_all numeric_char s"
proof -
  from assms obtain z k ds where s: "s = z # k # ds"
    by (auto simp: non_decimal_integer_literal_def split: list.splits)
  from assms s have z: "z = CHR ''0''"
    by (simp add: non_decimal_integer_literal_def)
  from assms s have "numeric_char k \<and> list_all numeric_char ds"
    by (auto simp: non_decimal_integer_literal_def literal_numeric list_all_iff
          hex_numeric octal_numeric binary_numeric split: if_splits)
  with s z show ?thesis by (simp add: literal_numeric)
qed

lemma string_is_number_chars:
  assumes "string_is_number s"
  shows "list_all numeric_char s"
proof (rule trim_chars)
  from assms show "list_all numeric_char (trim s)"
    by (auto simp: string_is_number_def str_decimal_literal_chars non_decimal_chars)
qed

lemma number_has_no_quote:
  assumes "CHR 0x27 \<in> set s \<or> CHR '';'' \<in> set s"
  shows "\<not> string_is_number s"
proof
  assume "string_is_number s"
  then have "list_all numeric_char s" by (rule string_is_number_chars)
  with assms have "numeric_char (CHR 0x27) \<or> numeric_char (CHR '';'')"
    by (auto simp: list_all_iff)
  then show False
    by (simp add: numeric_char_def is_white_space_def is_hex_digit_def)
qed

lemma getValue_rejects:
  assumes "CHR 0x27 \<in> set s \<or> CHR '';'' \<in> set s"
  shows "getValue (Str s) = Inl (InvalidValue s)"
proof -
  have "s \<noteq> ''NULL''" using assms by auto
  moreover have "s \<noteq> []" using assms by auto
  ultimately show ?thesis
    using assms number_has_no_quote [OF assms] by (simp add: str_includes_def)
qed

section \<open>Facts about placeholders in a text\<close>

lemma below_ten:
  "d < (10::nat) \<Longrightarrow>
     d = 0 \<or> d = 1 \<or> d = 2 \<or> d = 3 \<or> d = 4 \<or> d = 5 \<or> d = 6 \<or> d = 7 \<or> d = 8 \<or> d = 9"
  by arith

lemma digit_char_is_digit: "d < 10 \<Longrightarrow> is_digit (digit_char d)"
  by (drule below_ten) (elim disjE; simp add: digit_char_def is_digit_def)

lemma digit_value_digit_char: "d < 10 \<Longrightarrow> digit_value (digit_char d) = d"
  by (drule below_ten) (elim disjE; simp add: digit_char_def digit_value_def)

lemma toString_digits: "list_all is_digit (toString n)"
proof (induction n rule: toString.induct)
  case (1 n)
  show ?case
  proof (cases "n < 10")
    case True
    then show ?thesis
      by (subst toString.simps) (simp add: digit_char_is_digit)
  next
    case False
    with "1" show ?thesis
      by (subst toString.simps) (simp add: digit_char_is_digit)
  qed
qed

lemma toString_nonempty: "toString n \<noteq> []"
  by (subst toString.simps) simp

lemma read_number_snoc: "read_number (ds @ [d]) = 10 * read_number ds + digit_value d"
  by (simp add: read_number_def)

lemma read_toString: "read_number (toString n) = n"
proof (induction n rule: toString.induct)
  case (1 n)
  show ?case
  proof (cases "n < 10")
    case True
    then show ?thesis
      by (subst toString.simps) (simp add: read_number_def digit_value_digit_char)
  next
    case False
    with "1" show ?thesis
      by (subst toString.simps) (simp add: read_number_snoc digit_value_digit_char)
  qed
qed

lemma ok_start_append: "ok_start q \<Longrightarrow> ok_start t \<Longrightarrow> ok_start (q @ t)"
  by (cases q) (simp_all add: ok_start_def)

lemma digits_then_rest:
  assumes "list_all is_digit ds" "ok_start t"
  shows "takeWhile is_digit (ds @ t) = ds" "dropWhile is_digit (ds @ t) = t"
proof -
  have t: "takeWhile is_digit t = []" "dropWhile is_digit t = t"
    using assms(2) by (cases t; simp add: ok_start_def)+
  from assms(1) show "takeWhile is_digit (ds @ t) = ds"
    by (simp add: takeWhile_append2 list_all_iff t)
  from assms(1) show "dropWhile is_digit (ds @ t) = t"
    by (simp add: dropWhile_append2 list_all_iff t)
qed

lemma emits_nothing: "emits c [] []"
  by (simp add: emits_def)

lemma placeholders_skip: "c \<noteq> x \<Longrightarrow> placeholders c (x # xs) = placeholders c xs"
  by (auto simp: placeholders.simps(2))

lemma placeholders_plain: "c \<notin> set p \<Longrightarrow> placeholders c (p @ xs) = placeholders c xs"
  by (induction p) (auto simp: placeholders_skip)

lemma placeholders_number:
  "ok_start t \<Longrightarrow> placeholders c (c # toString n @ t) = n # placeholders c t"
  by (simp add: placeholders.simps(2) digits_then_rest [OF toString_digits] toString_nonempty
        read_toString)

lemma emits_plain: "c \<notin> set p \<Longrightarrow> emits c p []"
  by (simp add: emits_def placeholders_plain)

lemma emits_placeholder: "emits c (c # toString n) [n]"
  by (simp add: emits_def placeholders_number)

lemma emits_append:
  assumes "emits c p ps" "emits c q qs" "ok_start q"
  shows "emits c (p @ q) (ps @ qs)"
  unfolding emits_def
proof (intro allI impI)
  fix t assume t: "ok_start t"
  then have "ok_start (q @ t)"
    using assms(3) by (simp add: ok_start_append)
  with assms(1) have "placeholders c (p @ q @ t) = ps @ placeholders c (q @ t)"
    by (simp add: emits_def)
  with assms(2) t show "placeholders c ((p @ q) @ t) = (ps @ qs) @ placeholders c t"
    by (simp add: emits_def)
qed

lemma emits_whole: "emits c p ns \<Longrightarrow> placeholders c p = ns"
  using emits_def [of c p ns] by (auto simp: ok_start_def dest: spec [where x = "[]"])

lemma ok_start_simps:
  "ok_start [] = True" "ok_start (x # xs) = (\<not> is_digit x)"
  by (simp_all add: ok_start_def)

lemma ok_start_prefix: "p \<noteq> [] \<Longrightarrow> ok_start (p @ t) = ok_start p"
  by (cases p) (simp_all add: ok_start_def)

lemma symbol_not_text:
  assumes "\<not> sql_text_char c"
  shows "c \<noteq> CHR '' ''" "c \<noteq> CHR '',''" "c \<noteq> CHR '')''" "c \<noteq> CHR ''(''" "c \<noteq> CHR ''=''"
    "c \<noteq> CHR ''A''" "c \<noteq> CHR ''N''" "c \<noteq> CHR ''D''" "c \<noteq> CHR ''W''" "c \<noteq> CHR ''H''"
    "c \<noteq> CHR ''E''" "c \<noteq> CHR ''R''" "c \<noteq> CHR ''U''" "c \<noteq> CHR ''L''" "c \<noteq> CHR ''O''"
    "c \<noteq> CHR ''B''" "c \<noteq> CHR ''Y''" "c \<noteq> CHR ''S''" "c \<noteq> CHR ''C''"
  using assms by (simp_all add: sql_text_char_def)

lemma not_digit_text:
  "\<not> is_digit (CHR '' '')" "\<not> is_digit (CHR '','')" "\<not> is_digit (CHR '')'')"
  "\<not> is_digit (CHR ''W'')" "\<not> is_digit (CHR ''A'')" "\<not> is_digit (CHR ''O'')"
  "\<not> is_digit (CHR ''='')"
  by (simp_all add: is_digit_def)

lemma indexOf_less: "x \<in> set xs \<Longrightarrow> indexOf xs x < length xs"
  unfolding indexOf_def by (induction xs) auto

lemma key_text_listed:
  assumes "neg \<le> 1"
  shows "key_text neg op \<in> set operator_texts"
proof (cases "key_token op \<in> set operators")
  case False
  then show ?thesis by (simp add: key_text_def operator_texts_def)
next
  case True
  then have i: "indexOf operators (key_token op) < 10"
    using indexOf_less [of "key_token op" operators] by (simp add: operators_def)
  have "key_negate neg op = 0 \<or> key_negate neg op = 1"
    using assms by (auto simp: key_negate_def)
  then show ?thesis
  proof
    assume "key_negate neg op = 0"
    moreover have "sqlop ! 0 ! indexOf operators (key_token op) \<in> set (sqlop ! 0)"
      using i by (intro nth_mem) (simp add: sqlop_def)
    ultimately show ?thesis
      using True by (simp add: key_text_def operator_texts_def)
  next
    assume "key_negate neg op = 1"
    moreover have "sqlop ! 1 ! indexOf operators (key_token op) \<in> set (sqlop ! 1)"
      using i by (intro nth_mem) (simp add: sqlop_def)
    ultimately show ?thesis
      using True by (simp add: key_text_def operator_texts_def)
  qed
qed

lemma operator_texts_plain:
  assumes "\<not> sql_text_char c" "t \<in> set operator_texts"
  shows "c \<notin> set t \<and> t \<noteq> [] \<and> ok_start t"
proof -
  have "list_all (\<lambda>t. list_all sql_text_char t \<and> t \<noteq> [] \<and> ok_start t) operator_texts"
    by code_simp
  with assms(2) have "list_all sql_text_char t \<and> t \<noteq> [] \<and> ok_start t"
    by (simp add: list_all_iff)
  with assms(1) show ?thesis
    by (auto simp: list_all_iff)
qed

lemma key_text_plain:
  assumes "neg \<le> 1" "\<not> sql_text_char c"
  shows "c \<notin> set (key_text neg op)" "key_text neg op \<noteq> []" "ok_start (key_text neg op)"
  using operator_texts_plain [OF assms(2) key_text_listed [OF assms(1), of op]] by simp_all

lemma key_negate_le: "neg \<le> 1 \<Longrightarrow> key_negate neg op \<le> 1"
  by (simp add: key_negate_def)

lemma emits_is:
  assumes "neg \<le> 1" "\<not> sql_text_char c"
  shows "emits c (key_text neg op @ ''NULL '') []"
  by (rule emits_plain) (simp add: key_text_plain [OF assms] symbol_not_text [OF assms(2)])

lemma emits_one:
  assumes "neg \<le> 1" "\<not> sql_text_char c"
  shows "emits c (key_text neg op @ c # toString n @ '' '') [n]"
  unfolding emits_def
  by (simp add: placeholders_plain key_text_plain [OF assms] placeholders_number ok_start_simps
        not_digit_text placeholders_skip symbol_not_text [OF assms(2)])

lemma emits_two:
  assumes "neg \<le> 1" "\<not> sql_text_char c"
  shows "emits c (key_text neg op @ c # toString n @ '' AND '' @ c # toString (n + 1) @ '' '')
           [n, n + 1]"
  unfolding emits_def
  by (simp add: placeholders_plain key_text_plain [OF assms] placeholders_number ok_start_simps
        not_digit_text placeholders_skip symbol_not_text [OF assms(2)])

lemma ok_start_more: "ok_start (concat (map (\<lambda>i. '', '' @ f i) xs) @ CHR '')'' # t)"
  by (cases xs) (simp_all add: ok_start_def is_digit_def)

lemma emits_more:
  assumes "\<not> sql_text_char c" "ok_start t"
  shows "placeholders c (concat (map (\<lambda>i. '', '' @ c # toString i) [m ..< m + k]) @ CHR '')'' # t)
           = [m ..< m + k] @ placeholders c (CHR '')'' # t)"
proof (induction k arbitrary: m)
  case 0
  show ?case by simp
next
  case (Suc k)
  have "[m ..< m + Suc k] = m # [Suc m ..< Suc m + k]"
    by (simp add: upt_conv_Cons del: upt_Suc)
  then show ?case
    using Suc.IH [of "Suc m"]
    using ok_start_more [of "\<lambda>i. c # toString i" "[Suc m ..< Suc m + k]" t]
    by (simp add: placeholders_skip symbol_not_text [OF assms(1)] placeholders_number
          del: upt_Suc)
qed

lemma emits_list:
  assumes "neg \<le> 1" "\<not> sql_text_char c"
  shows "emits c (key_text neg op @ join '', '' (map (placeholder [c]) [n ..< n + k]) @ '') '')
           [n ..< n + k]"
proof (cases k)
  case 0
  have "emits c (key_text neg op @ '') '') []"
    by (rule emits_plain) (simp add: key_text_plain [OF assms] symbol_not_text [OF assms(2)])
  with 0 show ?thesis by simp
next
  case (Suc j)
  have r: "[n ..< Suc (n + j)] = n # [Suc n ..< Suc (n + j)]"
    by (simp add: upt_conv_Cons del: upt_Suc)
  have "placeholders c (key_text neg op @ join '', '' (map (placeholder [c]) [n ..< n + Suc j])
            @ '') '' @ t)
          = [n ..< n + Suc j] @ placeholders c t" if "ok_start t" for t
    using emits_more [OF assms(2), of "CHR '' '' # t" "Suc n" j]
      ok_start_more [of "\<lambda>i. c # toString i" "[Suc n ..< Suc n + j]" "CHR '' '' # t"]
    by (simp add: r join_Cons placeholder_def comp_def placeholders_plain
          key_text_plain [OF assms] placeholders_number placeholders_skip
          symbol_not_text [OF assms(2)] ok_start_simps not_digit_text del: upt_Suc)
  with Suc show ?thesis
    by (simp add: emits_def)
qed

section \<open>Facts about one entry\<close>

lemma entry_step_scalar:
  assumes "charAt col 0 \<noteq> ''$''" "checkCol columns col = Inr ()"
  shows "entry_step subs columns st (col, Scalar p) =
           (case getValue p of
              Inl e \<Rightarrow> Inl e
            | Inr val \<Rightarrow>
                Inr (st\<lparr>sql := (if sql st = [] then ''WHERE '' else sql st @ ''AND '') @ col
                                 @ '' = '' @ subs @ toString (substitution st) @ '' '',
                        substitution := substitution st + 1,
                        valueArray := valueArray st @ [val]\<rparr>))"
  using assms by (simp add: entry_step_def Let_def split: sum.splits)

lemma entry_step_ops:
  assumes "charAt col 0 \<noteq> ''$''" "checkCol columns col = Inr ()"
  shows "entry_step subs columns st (col, Ops kvs) =
           (case for_each (op_step subs)
                   (st\<lparr>sql := (if sql st = [] then ''WHERE '' else sql st @ ''AND '') @ col @ '' ''\<rparr>, 0)
                   kvs of
              Inl e \<Rightarrow> Inl e
            | Inr (st', n') \<Rightarrow> Inr st')"
  using assms by (simp add: entry_step_def Let_def split: sum.splits)

lemma entry_step_unknown:
  assumes "charAt col 0 \<noteq> ''$''" "checkCol columns col = Inl e"
  shows "entry_step subs columns st (col, v) = Inl e"
  using assms by (simp add: entry_step_def)

lemma uri2sql_single_scalar:
  assumes "charAt col 0 \<noteq> ''$''" "checkCol columns col = Inr ()" "getValue p = Inr val"
  shows "uri2sql subs [(col, Scalar p)] columns =
           Inr \<lparr>r_sql = ''WHERE '' @ col @ '' = '' @ subs @ toString 1 @ '' '', r_values = [val]\<rparr>"
  using assms by (simp add: uri2sql_def entry_step_scalar init_def)

lemma uri2sql_single_op:
  assumes "charAt col 0 \<noteq> ''$''" "checkCol columns col = Inr ()"
  shows "uri2sql subs [(col, Ops [(op, v)])] columns =
           (case op_step subs (init\<lparr>sql := ''WHERE '' @ col @ '' ''\<rparr>, 0) (op, v) of
              Inl e \<Rightarrow> Inl e
            | Inr (st', n') \<Rightarrow> Inr \<lparr>r_sql = sql st' @ sort_clause st', r_values = valueArray st'\<rparr>)"
  using assms by (simp add: uri2sql_def entry_step_ops init_def split: sum.splits)

section \<open>Facts about the column check and the sort directive\<close>

lemma checkCol_empty: "checkCol [] c = Inr ()"
  by (simp add: checkCol_def)

lemma checkCol_known: "c \<in> column_name ` set columns \<Longrightarrow> checkCol columns c = Inr ()"
  by (auto simp: checkCol_def find_None_iff)

lemma checkCol_unknown:
  "columns \<noteq> [] \<Longrightarrow> c \<notin> column_name ` set columns \<Longrightarrow> checkCol columns c = Inl (UnknownColumn c)"
  by (auto simp: checkCol_def find_None_iff)

lemma checkCol_cases:
  "checkCol columns c = Inr () \<or> checkCol columns c = Inl (UnknownColumn c)"
  by (simp add: checkCol_def)

lemma sort_step_known:
  assumes "checkCol columns (sort_column seg) = Inr ()"
  shows "sort_step columns st seg =
           Inr (st\<lparr>sort_clause := (if sort_clause st = [] then ''ORDER BY ''
                                     else sort_clause st @ '', '')
                                    @ sort_column seg
                                    @ (if charAt seg 0 = ''-'' then '' DESC'' else [])\<rparr>)"
  using assms by (cases "charAt seg 0 = ''-''") (simp_all add: sort_step_def sort_column_def Let_def)

lemma sort_step_unknown:
  assumes "checkCol columns (sort_column seg) = Inl e"
  shows "sort_step columns st seg = Inl e"
  using assms by (cases "charAt seg 0 = ''-''") (simp_all add: sort_step_def sort_column_def Let_def)

lemma sort_loop_unknown:
  assumes "\<exists>seg \<in> set segs. checkCol columns (sort_column seg) \<noteq> Inr ()"
  shows "\<exists>c. checkCol columns c = Inl (UnknownColumn c)
           \<and> for_each (sort_step columns) st segs = Inl (UnknownColumn c)"
  using assms
proof (induction segs arbitrary: st)
  case Nil
  then show ?case by simp
next
  case (Cons seg segs)
  show ?case
  proof (cases "checkCol columns (sort_column seg) = Inr ()")
    case True
    with Cons.prems have "\<exists>x \<in> set segs. checkCol columns (sort_column x) \<noteq> Inr ()"
      by auto
    from Cons.IH [OF this] True show ?thesis
      by (simp add: sort_step_known)
  next
    case False
    with checkCol_cases [of columns "sort_column seg"]
    have "checkCol columns (sort_column seg) = Inl (UnknownColumn (sort_column seg))"
      by simp
    then show ?thesis
      by (auto simp: sort_step_unknown)
  qed
qed

lemma entry_step_sort:
  "entry_step subs columns st (''$sort'', Scalar (Str s)) =
     (case getValue (Str s) of
        Inl e \<Rightarrow> Inl e
      | Inr val \<Rightarrow>
          (case split_value val of
             Inl e \<Rightarrow> Inl e
           | Inr sortCols \<Rightarrow> for_each (sort_step columns) st sortCols))"
  by (simp add: entry_step_def charAt_def)

lemma uri2sql_fails_at:
  assumes "for_each (entry_step subs columns) init pre = Inr st0"
    and "entry_step subs columns st0 kv = Inl e"
  shows "uri2sql subs (pre @ kv # rest) columns = Inl e"
  using assms by (simp add: uri2sql_def for_each_append)

section \<open>The bound values stay clean\<close>

lemma for_each_preserves:
  assumes "for_each f s xs = Inr s'" and "I s"
    and "\<And>x a b. x \<in> set xs \<Longrightarrow> I a \<Longrightarrow> f a x = Inr b \<Longrightarrow> I b"
  shows "I s'"
  using assms
proof (induction xs arbitrary: s)
  case Nil
  then show ?case by simp
next
  case (Cons x xs)
  from Cons.prems(1) obtain s1 where s1: "f s x = Inr s1" and rest: "for_each f s1 xs = Inr s'"
    by (cases "f s x") simp_all
  have "I s1"
    using Cons.prems(3) [of x s s1] Cons.prems(2) s1 by simp
  show ?case
  proof (rule Cons.IH [OF rest \<open>I s1\<close>])
    fix y a b
    assume "y \<in> set xs" "I a" "f a y = Inr b"
    then show "I b"
      using Cons.prems(3) [of y a b] by simp
  qed
qed

lemma getValue_clean: "getValue p = Inr val \<Longrightarrow> clean_value val"
  by (cases p) (auto simp: str_includes_def split: if_splits)

lemma getValue_string: "getValue p = Inr (OString s) \<Longrightarrow> p = Str s"
  by (cases p) (auto split: if_splits)

lemma split_chars: "seg \<in> set (split x s) \<Longrightarrow> set seg \<subseteq> set s"
proof (induction s arbitrary: seg)
  case Nil
  then show ?case by simp
next
  case (Cons y s)
  show ?case
  proof (cases "y = x")
    case True
    with Cons show ?thesis by auto
  next
    case False
    obtain g gs where g: "split x s = g # gs"
      using split_nonempty [of x s] by (cases "split x s") simp_all
    with False Cons.prems have "seg = y # g \<or> seg \<in> set gs"
      by simp
    then show ?thesis
      using Cons.IH [of g] Cons.IH [of seg] g by auto
  qed
qed

lemma split_value_clean:
  assumes "clean_value val" "split_value val = Inr segs"
  shows "list_all clean_value (map OString segs)"
proof -
  from assms(2) obtain s where val: "val = OString s" and segs: "segs = split (CHR '':'') s"
    by (cases val) simp_all
  have "clean_value (OString seg)" if "seg \<in> set segs" for seg
    using split_chars [of seg "CHR '':''" s] that assms(1) val segs by auto
  then show ?thesis
    by (simp add: list_all_iff)
qed

lemma op_step_clean:
  assumes "op_step subs (st, n0) (op, v) = Inr (st', n')"
    and "list_all clean_value (valueArray st)"
  shows "list_all clean_value (valueArray st')"
proof -
  consider "key_token op = ''is''" | "key_token op = ''tween''" | "key_token op = ''in''"
    | "key_token op \<noteq> ''is''" "key_token op \<noteq> ''tween''" "key_token op \<noteq> ''in''"
    by blast
  then show ?thesis
  proof cases
    case 1
    with assms show ?thesis by (auto simp: op_step_is)
  next
    case 2
    from assms(1) 2 obtain val varr where g: "getValue v = Inr val"
      and sp: "split_value val = Inr varr" and len: "1 < length varr"
      and st': "valueArray st' = valueArray st @ [OString (varr ! 0), OString (varr ! 1)]"
      by (auto simp: op_step_tween split: sum.splits if_splits)
    from len have "0 < length varr"
      by arith
    then have "varr ! 0 \<in> set varr"
      by (rule nth_mem)
    moreover from len have "varr ! 1 \<in> set varr"
      by (rule nth_mem)
    moreover note split_value_clean [OF getValue_clean [OF g] sp]
    ultimately have "clean_value (OString (varr ! 0)) \<and> clean_value (OString (varr ! 1))"
      by (simp add: list_all_iff)
    with assms(2) st' show ?thesis by simp
  next
    case 3
    from assms(1) 3 obtain val segs where g: "getValue v = Inr val"
      and sp: "split_value val = Inr segs"
      and st': "valueArray st' = valueArray st @ map OString segs"
      by (auto simp: op_step_in split: sum.splits)
    from split_value_clean [OF getValue_clean [OF g] sp] assms(2) st' show ?thesis by simp
  next
    case 4
    from assms(1) 4 obtain val where g: "getValue v = Inr val"
      and st': "valueArray st' = valueArray st @ [val]"
      by (auto simp: op_step_other split: sum.splits)
    from getValue_clean [OF g] assms(2) st' show ?thesis by simp
  qed
qed

lemma op_loop_clean:
  assumes "for_each (op_step subs) (st, n0) kvs = Inr (st', n')"
    and "list_all clean_value (valueArray st)"
  shows "list_all clean_value (valueArray st')"
proof -
  have "list_all clean_value (valueArray (fst (st', n')))"
  proof (rule for_each_preserves [OF assms(1), where I = "\<lambda>a. list_all clean_value (valueArray (fst a))"])
    show "list_all clean_value (valueArray (fst (st, n0)))"
      using assms(2) by simp
  next
    fix x a b
    assume "list_all clean_value (valueArray (fst a))" "op_step subs a x = Inr b"
    then show "list_all clean_value (valueArray (fst b))"
      using op_step_clean [of subs "fst a" "snd a" "fst x" "snd x" "fst b" "snd b"] by simp
  qed
  then show ?thesis by simp
qed

lemma sort_step_keeps:
  assumes "sort_step columns st seg = Inr st'"
  shows "sql st' = sql st \<and> valueArray st' = valueArray st \<and> substitution st' = substitution st
       \<and> sort_clause st' = (if sort_clause st = [] then ''ORDER BY '' else sort_clause st @ '', '')
                            @ sort_column seg @ (if charAt seg 0 = ''-'' then '' DESC'' else [])"
proof (cases "checkCol columns (sort_column seg)")
  case (Inl e)
  with assms show ?thesis by (simp add: sort_step_unknown)
next
  case (Inr u)
  with assms show ?thesis by (auto simp: sort_step_known)
qed

lemma sort_loop_keeps:
  assumes "for_each (sort_step columns) st segs = Inr st'"
  shows "sql st' = sql st \<and> valueArray st' = valueArray st \<and> substitution st' = substitution st"
proof (rule for_each_preserves [OF assms,
      where I = "\<lambda>a. sql a = sql st \<and> valueArray a = valueArray st \<and> substitution a = substitution st"])
  show "sql st = sql st \<and> valueArray st = valueArray st \<and> substitution st = substitution st"
    by simp
next
  fix x a b
  assume "sql a = sql st \<and> valueArray a = valueArray st \<and> substitution a = substitution st"
    "sort_step columns a x = Inr b"
  then show "sql b = sql st \<and> valueArray b = valueArray st \<and> substitution b = substitution st"
    using sort_step_keeps [of columns a x b] by simp
qed

lemma entry_step_clean:
  assumes "entry_step subs columns st kv = Inr st'"
    and "list_all clean_value (valueArray st)"
  shows "list_all clean_value (valueArray st')"
proof -
  obtain col v where kv: "kv = (col, v)" by (cases kv)
  show ?thesis
  proof (cases "charAt col 0 = ''$''")
    case True
    show ?thesis
    proof (cases "col = ''$sort''")
      case False
      with True assms kv show ?thesis by (simp add: entry_step_def)
    next
      case sort: True
      with assms(1) kv obtain s where v: "v = Scalar (Str s)"
        by (auto simp: entry_step_def charAt_def split: qvalue.splits scalar.splits)
      with assms(1) kv sort obtain val segs where
        "for_each (sort_step columns) st segs = Inr st'"
        by (auto simp: entry_step_sort split: sum.splits)
      from sort_loop_keeps [OF this] assms(2) show ?thesis by simp
    qed
  next
    case False
    with assms(1) kv have ok: "checkCol columns col = Inr ()"
      using checkCol_cases [of columns col] by (auto simp: entry_step_unknown)
    show ?thesis
    proof (cases v)
      case (Scalar p)
      with assms(1) kv False ok obtain val where "getValue p = Inr val"
        "valueArray st' = valueArray st @ [val]"
        by (auto simp: entry_step_scalar split: sum.splits)
      with assms(2) getValue_clean show ?thesis by simp
    next
      case (Ops kvs)
      with assms(1) kv False ok obtain n' where
        "for_each (op_step subs)
           (st\<lparr>sql := (if sql st = [] then ''WHERE '' else sql st @ ''AND '') @ col @ '' ''\<rparr>, 0) kvs
         = Inr (st', n')"
        by (auto simp: entry_step_ops split: sum.splits)
      from op_loop_clean [OF this] assms(2) show ?thesis by simp
    qed
  qed
qed

lemma uri2sql_clean:
  assumes "uri2sql subs query columns = Inr r"
  shows "list_all clean_value (r_values r)"
proof -
  from assms obtain st where st: "for_each (entry_step subs columns) init query = Inr st"
    and r: "r_values r = valueArray st"
    by (auto simp: uri2sql_def split: sum.splits)
  have "list_all clean_value (valueArray st)"
  proof (rule for_each_preserves [OF st, where I = "\<lambda>a. list_all clean_value (valueArray a)"])
    show "list_all clean_value (valueArray init)" by (simp add: init_def)
  next
    fix x a b
    assume "list_all clean_value (valueArray a)" "entry_step subs columns a x = Inr b"
    then show "list_all clean_value (valueArray b)"
      using entry_step_clean by blast
  qed
  with r show ?thesis by simp
qed

lemma op_step_rejects:
  assumes "CHR 0x27 \<in> set s \<or> CHR '';'' \<in> set s" and "key_token op \<noteq> ''is''"
  shows "op_step subs (st, n0) (op, Str s) = Inl (InvalidValue s)"
proof -
  note g = getValue_rejects [OF assms(1)]
  consider "key_token op = ''tween''" | "key_token op = ''in''"
    | "key_token op \<noteq> ''is''" "key_token op \<noteq> ''tween''" "key_token op \<noteq> ''in''"
    using assms(2) by blast
  then show ?thesis
  proof cases
    case 1
    then show ?thesis by (simp only: op_step_tween g sum.case)
  next
    case 2
    then show ?thesis by (simp only: op_step_in g sum.case)
  next
    case 3
    then show ?thesis by (simp only: op_step_other [OF 3] g sum.case)
  qed
qed

section \<open>The placeholders stay numbered\<close>

lemma numbered_extend:
  assumes "numbered c st"
    and "emits c q [substitution st ..< substitution st + k]" and "ok_start q"
    and "sql st' = sql st @ q" and "substitution st' = substitution st + k"
    and "length (valueArray st') = length (valueArray st) + k"
    and "sort_clause st' = sort_clause st"
  shows "numbered c st'"
proof -
  from assms(1) have one: "1 \<le> substitution st"
    by (auto simp: numbered_def)
  from assms(1) have "emits c (sql st) [1 ..< substitution st]"
    by (simp add: numbered_def)
  from emits_append [OF this assms(2,3)]
  have "emits c (sql st') [1 ..< substitution st']"
    using one by (simp add: assms(4,5) upt_add_eq_append [symmetric] del: upt_Suc)
  with assms(1,5,6,7) show ?thesis
    by (simp add: numbered_def)
qed

lemma op_step_numbered:
  assumes c: "\<not> is_digit c" "\<not> sql_text_char c"
    and inv: "numbered c st" "neg \<le> 1"
    and run: "op_step [c] (st, neg) (op, v) = Inr (st', neg')"
  shows "numbered c st' \<and> neg' \<le> 1"
proof -
  note kt = key_text_plain [OF inv(2) c(2), of op]
  have start: "ok_start (key_text neg op @ t)" for t
    using kt by (simp add: ok_start_prefix)
  consider "key_token op = ''is''" | "key_token op = ''tween''" | "key_token op = ''in''"
    | "key_token op \<noteq> ''is''" "key_token op \<noteq> ''tween''" "key_token op \<noteq> ''in''"
    by blast
  then show ?thesis
  proof cases
    case 1
    with run have st': "st' = st\<lparr>sql := sql st @ key_text neg op @ ''NULL ''\<rparr>"
      and n: "neg' = key_negate neg op"
      by (simp_all add: op_step_is)
    from emits_is [OF inv(2) c(2), of op]
    have e: "emits c (key_text neg op @ ''NULL '') [substitution st ..< substitution st + 0]"
      by simp
    have "numbered c st'"
      by (rule numbered_extend [OF inv(1) e]) (simp_all add: start st')
    with n show ?thesis using key_negate_le [OF inv(2), of op] by simp
  next
    case 2
    with run obtain varr where
      st': "st' = st\<lparr>sql := sql st @ key_text neg op @ placeholder [c] (substitution st)
                               @ '' AND '' @ placeholder [c] (substitution st + 1) @ '' '',
                     substitution := substitution st + 2,
                     valueArray := valueArray st @ [OString (varr ! 0), OString (varr ! 1)]\<rparr>"
      and n: "neg' = key_negate neg op"
      by (auto simp: op_step_tween split: sum.splits if_splits)
    have "[substitution st ..< substitution st + 2] = [substitution st, substitution st + 1]"
      by (simp add: upt_rec [of "substitution st"] upt_rec [of "Suc (substitution st)"]
            del: upt_Suc)
    with emits_two [OF inv(2) c(2), of op "substitution st"]
    have e: "emits c (key_text neg op @ c # toString (substitution st)
                       @ '' AND '' @ c # toString (substitution st + 1) @ '' '')
               [substitution st ..< substitution st + 2]"
      by simp
    have "numbered c st'"
      by (rule numbered_extend [OF inv(1) e]) (simp_all add: start st' placeholder_def)
    with n show ?thesis using key_negate_le [OF inv(2), of op] by simp
  next
    case 3
    with run obtain segs where
      st': "st' = st\<lparr>sql := sql st @ key_text neg op
                               @ join '', '' (map (placeholder [c])
                                    [substitution st ..< substitution st + length segs])
                               @ '') '',
                     substitution := substitution st + length segs,
                     valueArray := valueArray st @ map OString segs\<rparr>"
      and n: "neg' = key_negate neg op"
      by (auto simp: op_step_in split: sum.splits)
    note e = emits_list [OF inv(2) c(2), of op "substitution st" "length segs"]
    have "numbered c st'"
      by (rule numbered_extend [OF inv(1) e]) (simp_all add: start st')
    with n show ?thesis using key_negate_le [OF inv(2), of op] by simp
  next
    case 4
    with run obtain val where
      st': "st' = st\<lparr>sql := sql st @ key_text neg op @ placeholder [c] (substitution st) @ '' '',
                     substitution := substitution st + 1,
                     valueArray := valueArray st @ [val]\<rparr>"
      and n: "neg' = key_negate neg op"
      by (auto simp: op_step_other split: sum.splits)
    from emits_one [OF inv(2) c(2), of op "substitution st"]
    have e: "emits c (key_text neg op @ c # toString (substitution st) @ '' '')
               [substitution st ..< substitution st + 1]"
      by simp
    have "numbered c st'"
      by (rule numbered_extend [OF inv(1) e]) (simp_all add: start st' placeholder_def)
    with n show ?thesis using key_negate_le [OF inv(2), of op] by simp
  qed
qed

lemma op_loop_numbered:
  assumes c: "\<not> is_digit c" "\<not> sql_text_char c"
    and inv: "numbered c st"
    and run: "for_each (op_step [c]) (st, 0) kvs = Inr (st', neg')"
  shows "numbered c st'"
proof -
  have "numbered c (fst (st', neg')) \<and> snd (st', neg') \<le> 1"
  proof (rule for_each_preserves [OF run, where I = "\<lambda>a. numbered c (fst a) \<and> snd a \<le> 1"])
    show "numbered c (fst (st, 0::nat)) \<and> snd (st, 0::nat) \<le> 1"
      using inv by simp
  next
    fix x a b
    assume "numbered c (fst a) \<and> snd a \<le> 1" "op_step [c] a x = Inr b"
    then show "numbered c (fst b) \<and> snd b \<le> 1"
      using op_step_numbered [OF c, of "fst a" "snd a" "fst x" "snd x" "fst b" "snd b"] by simp
  qed
  then show ?thesis by simp
qed


lemma sort_column_chars: "set (sort_column seg) \<subseteq> set seg"
  by (auto simp: sort_column_def substring_def dest: in_set_dropD)

lemma sort_step_numbered:
  assumes c: "\<not> is_digit c" "\<not> sql_text_char c"
    and inv: "numbered c st" and seg: "c \<notin> set seg"
    and run: "sort_step columns st seg = Inr st'"
  shows "numbered c st'"
proof -
  note k = sort_step_keeps [OF run]
  from seg have col: "c \<notin> set (sort_column seg)"
    using sort_column_chars [of seg] by auto
  from inv have old: "c \<notin> set (sort_clause st)" "ok_start (sort_clause st)"
    by (simp_all add: numbered_def)
  have free: "c \<notin> set (sort_clause st')"
    using k col old(1) by (simp add: symbol_not_text [OF c(2)])
  have start: "ok_start (sort_clause st')"
  proof (cases "sort_clause st = []")
    case True
    with k show ?thesis by (simp add: ok_start_simps is_digit_def)
  next
    case False
    with k old(2) show ?thesis by (simp add: ok_start_prefix)
  qed
  from inv k free start show ?thesis
    by (simp add: numbered_def)
qed

lemma sort_loop_numbered:
  assumes c: "\<not> is_digit c" "\<not> sql_text_char c"
    and inv: "numbered c st" and segs: "\<And>seg. seg \<in> set segs \<Longrightarrow> c \<notin> set seg"
    and run: "for_each (sort_step columns) st segs = Inr st'"
  shows "numbered c st'"
proof (rule for_each_preserves [OF run, where I = "numbered c"])
  show "numbered c st" by (rule inv)
next
  fix x a b
  assume "x \<in> set segs" "numbered c a" "sort_step columns a x = Inr b"
  then show "numbered c b"
    using sort_step_numbered [OF c, of a x columns b] segs by simp
qed

lemma where_and:
  "(if sql st = [] then ''WHERE '' else sql st @ ''AND '')
     = sql st @ (if sql st = [] then ''WHERE '' else ''AND '')"
  by simp

lemma entry_step_numbered:
  assumes c: "\<not> is_digit c" "\<not> sql_text_char c"
    and free: "entry_free c kv" and inv: "numbered c st"
    and run: "entry_step [c] columns st kv = Inr st'"
  shows "numbered c st'"
proof -
  obtain col v where kv: "kv = (col, v)" by (cases kv)
  show ?thesis
  proof (cases "charAt col 0 = ''$''")
    case True
    show ?thesis
    proof (cases "col = ''$sort''")
      case False
      with True run kv inv show ?thesis by (simp add: entry_step_def)
    next
      case sort: True
      with run kv obtain s where v: "v = Scalar (Str s)"
        by (auto simp: entry_step_def charAt_def split: qvalue.splits scalar.splits)
      with run kv sort obtain val segs where g: "getValue (Str s) = Inr val"
        and sp: "split_value val = Inr segs"
        and loop: "for_each (sort_step columns) st segs = Inr st'"
        by (auto simp: entry_step_sort split: sum.splits)
      from sp obtain s' where val: "val = OString s'" and segs: "segs = split (CHR '':'') s'"
        by (cases val) simp_all
      from g val have "s' = s"
        using getValue_string [of "Str s" s'] by simp
      moreover from free kv True sort v have "c \<notin> set s"
        by (simp add: entry_free_def sort_text_def)
      ultimately have "c \<notin> set seg" if "seg \<in> set segs" for seg
        using split_chars [of seg "CHR '':''" s] that segs by auto
      with sort_loop_numbered [OF c inv _ loop] show ?thesis by blast
    qed
  next
    case False
    with run kv have ok: "checkCol columns col = Inr ()"
      using checkCol_cases [of columns col] by (auto simp: entry_step_unknown)
    from free kv False have col: "c \<notin> set col"
      by (simp add: entry_free_def)
    let ?kw = "if sql st = [] then ''WHERE '' else ''AND ''"
    show ?thesis
    proof (cases v)
      case (Scalar p)
      with run kv False ok obtain val where
        st': "st' = st\<lparr>sql := sql st @ ?kw @ col @ '' = '' @ [c] @ toString (substitution st) @ '' '',
                       substitution := substitution st + 1,
                       valueArray := valueArray st @ [val]\<rparr>"
        by (auto simp: entry_step_scalar where_and split: sum.splits)
      have e: "emits c (?kw @ col @ '' = '' @ c # toString (substitution st) @ '' '')
                 [substitution st ..< substitution st + 1]"
        unfolding emits_def
        by (simp add: placeholders_skip symbol_not_text [OF c(2)] placeholders_plain col
              placeholders_number ok_start_simps not_digit_text)
      show ?thesis
        by (rule numbered_extend [OF inv e]) (simp_all add: st' ok_start_simps is_digit_def)
    next
      case (Ops kvs)
      with run kv False ok obtain n' where
        loop: "for_each (op_step [c]) (st\<lparr>sql := sql st @ ?kw @ col @ '' ''\<rparr>, 0) kvs
                 = Inr (st', n')"
        by (auto simp: entry_step_ops where_and split: sum.splits)
      have e: "emits c (?kw @ col @ '' '') [substitution st ..< substitution st + 0]"
        using col by (simp add: emits_plain symbol_not_text [OF c(2)])
      have "numbered c (st\<lparr>sql := sql st @ ?kw @ col @ '' ''\<rparr>)"
        by (rule numbered_extend [OF inv e]) (simp_all add: ok_start_simps is_digit_def)
      from op_loop_numbered [OF c this loop] show ?thesis .
    qed
  qed
qed

lemma uri2sql_numbered:
  assumes c: "\<not> is_digit c" "\<not> sql_text_char c"
    and free: "symbol_free c query"
    and run: "uri2sql [c] query columns = Inr r"
  shows "placeholders c (r_sql r) = [1 ..< Suc (length (r_values r))]"
proof -
  from run obtain st where st: "for_each (entry_step [c] columns) init query = Inr st"
    and r: "r_sql r = sql st @ sort_clause st" "r_values r = valueArray st"
    by (auto simp: uri2sql_def split: sum.splits)
  have "numbered c st"
  proof (rule for_each_preserves [OF st, where I = "numbered c"])
    show "numbered c init"
      by (simp add: numbered_def init_def emits_nothing ok_start_simps)
  next
    fix x a b
    assume "x \<in> set query" "numbered c a" "entry_step [c] columns a x = Inr b"
    moreover from this(1) free have "entry_free c x"
      by (simp add: symbol_free_def list_all_iff)
    ultimately show "numbered c b"
      using entry_step_numbered [OF c] by blast
  qed
  then have e: "emits c (sql st) [1 ..< substitution st]"
    and n: "Suc (length (valueArray st)) = substitution st"
    and s: "c \<notin> set (sort_clause st)" "ok_start (sort_clause st)"
    by (simp_all add: numbered_def)
  from e s(2) have "placeholders c (sql st @ sort_clause st)
      = [1 ..< substitution st] @ placeholders c (sort_clause st)"
    by (simp add: emits_def)
  moreover have "placeholders c (sort_clause st) = []"
    using placeholders_plain [OF s(1), of "[]"] by simp
  ultimately show ?thesis
    using n r by simp
qed

section \<open>Operator keys outside the table\<close>

text \<open>
  Claim C6. An operator key whose token (the key without a leading \<^verbatim>\<open>-\<close>) is not in the
  operator table is no error of its own: the pair is handled as the \<^verbatim>\<open>=\<close> operator. The text
  \<^verbatim>\<open>= \<close> and one placeholder are appended and the one normalized value is pushed, with or
  without the marker; the pair fails only when the normalizer rejects its value, with the
  normalizer's exception.
\<close>

theorem unknown_token_defaults_to_eq:
  assumes "key_token op \<notin> set operators"
  shows "op_step subs (st, n0) (op, v) =
           (case getValue v of
              Inl e \<Rightarrow> Inl e
            | Inr val \<Rightarrow>
                Inr (st\<lparr>sql := sql st @ ''= '' @ subs @ toString (substitution st) @ '' '',
                        substitution := substitution st + 1,
                        valueArray := valueArray st @ [val]\<rparr>,
                     key_negate n0 op))"
proof -
  have "key_text n0 op = ''= ''"
    using assms by (simp add: key_text_def)
  then show ?thesis
    using outside_table [OF assms]
    by (simp add: op_step_other placeholder_def split: sum.splits)
qed

theorem unknown_token_defaults_to_eq_witness:
  "key_token ''-near'' \<notin> set operators
   \<and> op_step ''$'' (init, 0) (''-near'', Str ''x'')
       = Inr (\<lparr>sql = ''= $1 '', sort_clause = [], valueArray = [OString ''x''], substitution = 2\<rparr>, 1)
   \<and> key_token ''near'' \<notin> set operators
   \<and> op_step ''$'' (init, 0) (''near'', Str ''x'')
       = Inr (\<lparr>sql = ''= $1 '', sort_clause = [], valueArray = [OString ''x''], substitution = 2\<rparr>, 0)"
proof -
  have m: "key_token ''-near'' \<notin> set operators"
    by code_simp
  have u: "key_token ''near'' \<notin> set operators"
    by code_simp
  have "op_step ''$'' (init, 0) (''-near'', Str ''x'') =
          (case getValue (Str ''x'') of
             Inl e \<Rightarrow> Inl e
           | Inr val \<Rightarrow>
               Inr (init\<lparr>sql := sql init @ ''= '' @ ''$'' @ toString (substitution init) @ '' '',
                        substitution := substitution init + 1,
                        valueArray := valueArray init @ [val]\<rparr>,
                    key_negate 0 ''-near''))"
    by (rule unknown_token_defaults_to_eq [OF m])
  also have "\<dots> = Inr (\<lparr>sql = ''= $1 '', sort_clause = [], valueArray = [OString ''x''],
                         substitution = 2\<rparr>, 1)"
    by code_simp
  finally have a: "op_step ''$'' (init, 0) (''-near'', Str ''x'')
       = Inr (\<lparr>sql = ''= $1 '', sort_clause = [], valueArray = [OString ''x''], substitution = 2\<rparr>, 1)" .
  have "op_step ''$'' (init, 0) (''near'', Str ''x'') =
          (case getValue (Str ''x'') of
             Inl e \<Rightarrow> Inl e
           | Inr val \<Rightarrow>
               Inr (init\<lparr>sql := sql init @ ''= '' @ ''$'' @ toString (substitution init) @ '' '',
                        substitution := substitution init + 1,
                        valueArray := valueArray init @ [val]\<rparr>,
                    key_negate 0 ''near''))"
    by (rule unknown_token_defaults_to_eq [OF u])
  also have "\<dots> = Inr (\<lparr>sql = ''= $1 '', sort_clause = [], valueArray = [OString ''x''],
                         substitution = 2\<rparr>, 0)"
    by code_simp
  finally have b: "op_step ''$'' (init, 0) (''near'', Str ''x'')
       = Inr (\<lparr>sql = ''= $1 '', sort_clause = [], valueArray = [OString ''x''], substitution = 2\<rparr>, 0)" .
  show ?thesis
    by (rule conjI [OF m conjI [OF a conjI [OF u b]]])
qed

section \<open>The range operator\<close>

text \<open>
  Claim C4, as amended. For an entry with the \<^verbatim>\<open>tween\<close> operator, the pair succeeds only when
  its value is a string that splits at \<^verbatim>\<open>:\<close> into at least two segments. An empty value
  fails with \<open>MissingValue\<close>. For a value that the normalizer returns as a string (not empty,
  not numeric, free of quote and semicolon) the pair succeeds exactly when there are at
  least two segments, and fails with \<open>MissingValue\<close> otherwise; on success two placeholders
  joined by \<^verbatim>\<open> AND \<close> are appended and the first two segments are pushed in order, as they
  stand. Segments may be empty, and segments after the second are dropped.
\<close>

theorem tween_wants_two_segments:
  assumes "key_token op = ''tween''"
  shows "(op_step subs (st, n0) (op, v) = Inr r \<longrightarrow>
            (\<exists>s. v = Str s \<and> 2 \<le> length (split (CHR '':'') s)))
       \<and> op_step subs (st, n0) (op, Str []) = Inl MissingValue
       \<and> (s \<noteq> [] \<and> \<not> string_is_number s \<and> CHR 0x27 \<notin> set s \<and> CHR '';'' \<notin> set s \<longrightarrow>
            op_step subs (st, n0) (op, Str s) =
              (if 2 \<le> length (split (CHR '':'') s) then
                 Inr (st\<lparr>sql := sql st @ key_text n0 op @ subs @ toString (substitution st)
                                   @ '' AND '' @ subs @ toString (substitution st + 1) @ '' '',
                         substitution := substitution st + 2,
                         valueArray := valueArray st @ [OString (split (CHR '':'') s ! 0),
                                                        OString (split (CHR '':'') s ! 1)]\<rparr>,
                      key_negate n0 op)
               else Inl MissingValue))
       \<and> (s \<noteq> [] \<and> \<not> string_is_number s \<and> CHR 0x27 \<notin> set s \<and> CHR '';'' \<notin> set s
          \<and> charAt col 0 \<noteq> ''$'' \<and> checkCol columns col = Inr () \<longrightarrow>
            uri2sql subs [(col, Ops [(op, Str s)])] columns =
              (if 2 \<le> length (split (CHR '':'') s) then
                 Inr \<lparr>r_sql = ''WHERE '' @ col @ '' '' @ key_text 0 op @ subs @ toString 1
                               @ '' AND '' @ subs @ toString 2 @ '' '',
                      r_values = [OString (split (CHR '':'') s ! 0),
                                  OString (split (CHR '':'') s ! 1)]\<rparr>
               else Inl MissingValue))"
proof (intro conjI impI)
  assume ok: "op_step subs (st, n0) (op, v) = Inr r"
  show "\<exists>s. v = Str s \<and> 2 \<le> length (split (CHR '':'') s)"
  proof (cases v)
    case (Str s)
    with ok assms show ?thesis
      by (cases "getValue (Str s)")
         (auto simp: op_step_tween split: if_splits)
  next
    case (Num x)
    with ok assms show ?thesis
      by (simp add: op_step_tween split: if_splits)
  qed
next
  show "op_step subs (st, n0) (op, Str []) = Inl MissingValue"
    using assms by (simp add: op_step_tween)
next
  assume "s \<noteq> [] \<and> \<not> string_is_number s \<and> CHR 0x27 \<notin> set s \<and> CHR '';'' \<notin> set s"
  then have "getValue (Str s) = Inr (OString s)"
    by (intro getValue_plain_string) simp_all
  then show "op_step subs (st, n0) (op, Str s) =
              (if 2 \<le> length (split (CHR '':'') s) then
                 Inr (st\<lparr>sql := sql st @ key_text n0 op @ subs @ toString (substitution st)
                                   @ '' AND '' @ subs @ toString (substitution st + 1) @ '' '',
                         substitution := substitution st + 2,
                         valueArray := valueArray st @ [OString (split (CHR '':'') s ! 0),
                                                        OString (split (CHR '':'') s ! 1)]\<rparr>,
                      key_negate n0 op)
               else Inl MissingValue)"
    using assms by (simp add: op_step_tween placeholder_def)
next
  assume h: "s \<noteq> [] \<and> \<not> string_is_number s \<and> CHR 0x27 \<notin> set s \<and> CHR '';'' \<notin> set s
          \<and> charAt col 0 \<noteq> ''$'' \<and> checkCol columns col = Inr ()"
  then have g: "getValue (Str s) = Inr (OString s)"
    by (intro getValue_plain_string) simp_all
  have two: "Suc (Suc 0) = 2"
    by simp
  from h g assms show "uri2sql subs [(col, Ops [(op, Str s)])] columns =
              (if 2 \<le> length (split (CHR '':'') s) then
                 Inr \<lparr>r_sql = ''WHERE '' @ col @ '' '' @ key_text 0 op @ subs @ toString 1
                               @ '' AND '' @ subs @ toString 2 @ '' '',
                      r_values = [OString (split (CHR '':'') s ! 0),
                                  OString (split (CHR '':'') s ! 1)]\<rparr>
               else Inl MissingValue)"
    by (simp add: uri2sql_single_op op_step_tween placeholder_def init_def two)
qed

theorem tween_wants_two_segments_witness:
  "key_token ''tween'' = ''tween''
   \<and> ''18:x'' \<noteq> [] \<and> \<not> string_is_number ''18:x'' \<and> CHR 0x27 \<notin> set ''18:x'' \<and> CHR '';'' \<notin> set ''18:x''
   \<and> charAt ''age'' 0 \<noteq> ''$'' \<and> checkCol [] ''age'' = Inr ()
   \<and> op_step ''$'' (init, 0) (''tween'', Str ''18:x'')
       = Inr (\<lparr>sql = ''BETWEEN $1 AND $2 '', sort_clause = [],
                valueArray = [OString ''18'', OString ''x''], substitution = 3\<rparr>, 0)
   \<and> (\<exists>s. Str ''18:x'' = Str s \<and> 2 \<le> length (split (CHR '':'') s))
   \<and> op_step ''$'' (init, 0) (''tween'', Str []) = Inl MissingValue
   \<and> uri2sql ''$'' [(''age'', Ops [(''tween'', Str ''18:x'')])] []
       = Inr \<lparr>r_sql = ''WHERE age BETWEEN $1 AND $2 '', r_values = [OString ''18'', OString ''x'']\<rparr>"
proof -
  have k: "key_token ''tween'' = ''tween''"
    by code_simp
  have h: "''18:x'' \<noteq> [] \<and> \<not> string_is_number ''18:x'' \<and> CHR 0x27 \<notin> set ''18:x''
           \<and> CHR '';'' \<notin> set ''18:x''"
    by code_simp
  have c: "charAt ''age'' 0 \<noteq> ''$'' \<and> checkCol [] ''age'' = Inr ()"
    by code_simp
  note T = tween_wants_two_segments [OF k, of "''$''" init 0 "Str ''18:x''"
      "(\<lparr>sql = ''BETWEEN $1 AND $2 '', sort_clause = [],
         valueArray = [OString ''18'', OString ''x''], substitution = 3\<rparr>, 0)"
      "''18:x''" "''age''" "[]"]
  have "op_step ''$'' (init, 0) (''tween'', Str ''18:x'') =
          (if 2 \<le> length (split (CHR '':'') ''18:x'') then
             Inr (init\<lparr>sql := sql init @ key_text 0 ''tween'' @ ''$'' @ toString (substitution init)
                               @ '' AND '' @ ''$'' @ toString (substitution init + 1) @ '' '',
                      substitution := substitution init + 2,
                      valueArray := valueArray init @ [OString (split (CHR '':'') ''18:x'' ! 0),
                                                      OString (split (CHR '':'') ''18:x'' ! 1)]\<rparr>,
                  key_negate 0 ''tween'')
           else Inl MissingValue)"
    using conjunct1 [OF conjunct2 [OF conjunct2 [OF T]]] h by (rule mp)
  also have "\<dots> = Inr (\<lparr>sql = ''BETWEEN $1 AND $2 '', sort_clause = [],
                valueArray = [OString ''18'', OString ''x''], substitution = 3\<rparr>, 0)"
    by code_simp
  finally have run: "op_step ''$'' (init, 0) (''tween'', Str ''18:x'')
       = Inr (\<lparr>sql = ''BETWEEN $1 AND $2 '', sort_clause = [],
                valueArray = [OString ''18'', OString ''x''], substitution = 3\<rparr>, 0)" .
  have only: "\<exists>s. Str ''18:x'' = Str s \<and> 2 \<le> length (split (CHR '':'') s)"
    using conjunct1 [OF T] run by (rule mp)
  have empty: "op_step ''$'' (init, 0) (''tween'', Str []) = Inl MissingValue"
    by (rule conjunct1 [OF conjunct2 [OF T]])
  have "uri2sql ''$'' [(''age'', Ops [(''tween'', Str ''18:x'')])] [] =
          (if 2 \<le> length (split (CHR '':'') ''18:x'') then
             Inr \<lparr>r_sql = ''WHERE '' @ ''age'' @ '' '' @ key_text 0 ''tween'' @ ''$'' @ toString 1
                           @ '' AND '' @ ''$'' @ toString 2 @ '' '',
                  r_values = [OString (split (CHR '':'') ''18:x'' ! 0),
                              OString (split (CHR '':'') ''18:x'' ! 1)]\<rparr>
           else Inl MissingValue)"
    using conjunct2 [OF conjunct2 [OF conjunct2 [OF T]]] h c by (simp only: simp_thms)
  also have "\<dots> = Inr \<lparr>r_sql = ''WHERE age BETWEEN $1 AND $2 '',
                        r_values = [OString ''18'', OString ''x'']\<rparr>"
    by code_simp
  finally have whole: "uri2sql ''$'' [(''age'', Ops [(''tween'', Str ''18:x'')])] []
       = Inr \<lparr>r_sql = ''WHERE age BETWEEN $1 AND $2 '', r_values = [OString ''18'', OString ''x'']\<rparr>" .
  show ?thesis
    using k h c run only empty whole by (simp only: simp_thms)
qed

text \<open>
  The claim as it was stated asks for exactly two segments, neither of them empty. The
  value \<^verbatim>\<open>18:\<close> has an empty second segment and the value \<^verbatim>\<open>a:b:c\<close> has three segments;
  both compile.
\<close>

theorem tween_empty_segment_counterexample:
  "split (CHR '':'') ''18:'' = [''18'', []]
   \<and> uri2sql ''$'' [(''age'', Ops [(''tween'', Str ''18:'')])] []
       = Inr \<lparr>r_sql = ''WHERE age BETWEEN $1 AND $2 '', r_values = [OString ''18'', OString []]\<rparr>
   \<and> split (CHR '':'') ''a:b:c'' = [''a'', ''b'', ''c'']
   \<and> uri2sql ''$'' [(''age'', Ops [(''tween'', Str ''a:b:c'')])] []
       = Inr \<lparr>r_sql = ''WHERE age BETWEEN $1 AND $2 '', r_values = [OString ''a'', OString ''b'']\<rparr>"
  by code_simp

section \<open>The list operator\<close>

text \<open>
  Claim C7, as amended. For an entry with the \<^verbatim>\<open>in\<close> operator whose value the normalizer
  returns as a string (not empty, not numeric, free of quote and semicolon), the value is
  split at \<^verbatim>\<open>:\<close> into one or more segments, one placeholder per segment is appended with
  \<^verbatim>\<open>, \<close> between neighbours, the list is closed with \<^verbatim>\<open>) \<close>, and the segments are pushed
  in order as the strings they are: the normalizer sees the whole value only, never a
  segment. So \<^verbatim>\<open>{status: {in: "a:b:c"}}\<close> gives \<^verbatim>\<open>WHERE status IN ($1, $2, $3) \<close> with the
  values \<^verbatim>\<open>["a","b","c"]\<close>.
\<close>

theorem in_one_placeholder_per_segment:
  assumes "key_token op = ''in''"
    and "s \<noteq> []" and "\<not> string_is_number s" and "CHR 0x27 \<notin> set s" and "CHR '';'' \<notin> set s"
  shows "1 \<le> length (split (CHR '':'') s)
       \<and> op_step subs (st, n0) (op, Str s) =
           Inr (st\<lparr>sql := sql st @ key_text n0 op
                           @ join '', '' (map (placeholder subs)
                               [substitution st ..< substitution st + length (split (CHR '':'') s)])
                           @ '') '',
                   substitution := substitution st + length (split (CHR '':'') s),
                   valueArray := valueArray st @ map OString (split (CHR '':'') s)\<rparr>,
                key_negate n0 op)
       \<and> (charAt col 0 \<noteq> ''$'' \<and> checkCol columns col = Inr () \<longrightarrow>
            uri2sql subs [(col, Ops [(op, Str s)])] columns =
              Inr \<lparr>r_sql = ''WHERE '' @ col @ '' '' @ key_text 0 op
                            @ join '', '' (map (placeholder subs)
                                [1 ..< 1 + length (split (CHR '':'') s)])
                            @ '') '',
                   r_values = map OString (split (CHR '':'') s)\<rparr>)"
proof -
  have g: "getValue (Str s) = Inr (OString s)"
    using assms(2-5) by (rule getValue_plain_string)
  have step: "op_step subs (st, n0) (op, Str s) =
           Inr (st\<lparr>sql := sql st @ key_text n0 op
                           @ join '', '' (map (placeholder subs)
                               [substitution st ..< substitution st + length (split (CHR '':'') s)])
                           @ '') '',
                   substitution := substitution st + length (split (CHR '':'') s),
                   valueArray := valueArray st @ map OString (split (CHR '':'') s)\<rparr>,
                key_negate n0 op)" for st n0
    using assms(1) g by (simp add: op_step_in)
  have len: "1 \<le> length (split (CHR '':'') s)"
    using split_nonempty [of "CHR '':''" s] by (cases "split (CHR '':'') s") simp_all
  have whole: "uri2sql subs [(col, Ops [(op, Str s)])] columns =
              Inr \<lparr>r_sql = ''WHERE '' @ col @ '' '' @ key_text 0 op
                            @ join '', '' (map (placeholder subs)
                                [1 ..< 1 + length (split (CHR '':'') s)])
                            @ '') '',
                   r_values = map OString (split (CHR '':'') s)\<rparr>"
    if "charAt col 0 \<noteq> ''$''" "checkCol columns col = Inr ()"
    using that by (simp add: uri2sql_single_op step init_def del: upt_Suc)
  from len step whole show ?thesis by blast
qed

theorem in_one_placeholder_per_segment_witness:
  "key_token ''in'' = ''in''
   \<and> ''a:b:c'' \<noteq> [] \<and> \<not> string_is_number ''a:b:c'' \<and> CHR 0x27 \<notin> set ''a:b:c''
   \<and> CHR '';'' \<notin> set ''a:b:c''
   \<and> charAt ''status'' 0 \<noteq> ''$'' \<and> checkCol [] ''status'' = Inr ()
   \<and> 1 \<le> length (split (CHR '':'') ''a:b:c'')
   \<and> op_step ''$'' (init, 0) (''in'', Str ''a:b:c'')
       = Inr (\<lparr>sql = ''IN ($1, $2, $3) '', sort_clause = [],
                valueArray = [OString ''a'', OString ''b'', OString ''c''], substitution = 4\<rparr>, 0)
   \<and> uri2sql ''$'' [(''status'', Ops [(''in'', Str ''a:b:c'')])] []
       = Inr \<lparr>r_sql = ''WHERE status IN ($1, $2, $3) '',
               r_values = [OString ''a'', OString ''b'', OString ''c'']\<rparr>"
proof -
  have k: "key_token ''in'' = ''in''"
    by code_simp
  have h1: "''a:b:c'' \<noteq> []" and h2: "\<not> string_is_number ''a:b:c''"
    and h3: "CHR 0x27 \<notin> set ''a:b:c''" and h4: "CHR '';'' \<notin> set ''a:b:c''"
    by code_simp+
  have c: "charAt ''status'' 0 \<noteq> ''$'' \<and> checkCol [] ''status'' = Inr ()"
    by code_simp
  note T = in_one_placeholder_per_segment [OF k h1 h2 h3 h4, of "''$''" init 0 "''status''" "[]"]
  have len: "1 \<le> length (split (CHR '':'') ''a:b:c'')"
    by (rule conjunct1 [OF T])
  note conjunct1 [OF conjunct2 [OF T]]
  also have "Inr (init\<lparr>sql := sql init @ key_text 0 ''in''
                           @ join '', '' (map (placeholder ''$'')
                               [substitution init ..< substitution init + length (split (CHR '':'') ''a:b:c'')])
                           @ '') '',
                   substitution := substitution init + length (split (CHR '':'') ''a:b:c''),
                   valueArray := valueArray init @ map OString (split (CHR '':'') ''a:b:c'')\<rparr>,
                key_negate 0 ''in'')
      = (Inr (\<lparr>sql = ''IN ($1, $2, $3) '', sort_clause = [],
                valueArray = [OString ''a'', OString ''b'', OString ''c''], substitution = 4\<rparr>, 0)
         :: error + state \<times> nat)"
    by code_simp
  finally have run: "op_step ''$'' (init, 0) (''in'', Str ''a:b:c'')
       = Inr (\<lparr>sql = ''IN ($1, $2, $3) '', sort_clause = [],
                valueArray = [OString ''a'', OString ''b'', OString ''c''], substitution = 4\<rparr>, 0)" .
  note mp [OF conjunct2 [OF conjunct2 [OF T]] c]
  also have "Inr \<lparr>r_sql = ''WHERE '' @ ''status'' @ '' '' @ key_text 0 ''in''
                            @ join '', '' (map (placeholder ''$'')
                                [1 ..< 1 + length (split (CHR '':'') ''a:b:c'')])
                            @ '') '',
                   r_values = map OString (split (CHR '':'') ''a:b:c'')\<rparr>
      = (Inr \<lparr>r_sql = ''WHERE status IN ($1, $2, $3) '',
               r_values = [OString ''a'', OString ''b'', OString ''c'']\<rparr> :: error + result)"
    by code_simp
  finally have whole: "uri2sql ''$'' [(''status'', Ops [(''in'', Str ''a:b:c'')])] []
       = Inr \<lparr>r_sql = ''WHERE status IN ($1, $2, $3) '',
               r_values = [OString ''a'', OString ''b'', OString ''c'']\<rparr>" .
  show ?thesis
    using k h1 h2 h3 h4 c len run whole by (simp only: simp_thms)
qed

text \<open>
  The claim as it was stated has every segment normalized. The segment \<^verbatim>\<open>1\<close> of the value
  \<^verbatim>\<open>1:x\<close> is pushed as the string it is, where the normalizer would return a number; the
  empty segment of \<^verbatim>\<open>a::b\<close> is pushed, where the normalizer would throw.
\<close>

theorem in_segments_not_normalized_counterexample:
  "uri2sql ''$'' [(''status'', Ops [(''in'', Str ''1:x'')])] []
     = Inr \<lparr>r_sql = ''WHERE status IN ($1, $2) '', r_values = [OString ''1'', OString ''x'']\<rparr>
   \<and> getValue (Str ''1'') = Inr (ONumber (Str ''1''))
   \<and> uri2sql ''$'' [(''status'', Ops [(''in'', Str ''a::b'')])] []
     = Inr \<lparr>r_sql = ''WHERE status IN ($1, $2, $3) '',
             r_values = [OString ''a'', OString [], OString ''b'']\<rparr>
   \<and> getValue (Str []) = Inl MissingValue"
  by code_simp

section \<open>The text NULL as a value\<close>

text \<open>
  Claim C3, as amended. For the raw value \<^verbatim>\<open>NULL\<close> (upper case) the normalizer returns the
  string \<^verbatim>\<open>NULL\<close> itself. A plain-equality entry \<^verbatim>\<open>{col: "NULL"}\<close> whose column passes the
  column check is compiled like any other string: \<^verbatim>\<open>col = \<close> and one placeholder are
  appended, and the string \<^verbatim>\<open>NULL\<close> is pushed as the value bound to that placeholder.
\<close>

theorem null_is_bound_as_string:
  "getValue (Str ''NULL'') = Inr (OString ''NULL'')
   \<and> (charAt col 0 \<noteq> ''$'' \<and> checkCol columns col = Inr () \<longrightarrow>
        entry_step subs columns st (col, Scalar (Str ''NULL'')) =
          Inr (st\<lparr>sql := (if sql st = [] then ''WHERE '' else sql st @ ''AND '') @ col
                           @ '' = '' @ subs @ toString (substitution st) @ '' '',
                  substitution := substitution st + 1,
                  valueArray := valueArray st @ [OString ''NULL'']\<rparr>)
      \<and> uri2sql subs [(col, Scalar (Str ''NULL''))] columns =
          Inr \<lparr>r_sql = ''WHERE '' @ col @ '' = '' @ subs @ toString 1 @ '' '',
               r_values = [OString ''NULL'']\<rparr>)"
proof -
  have g: "getValue (Str ''NULL'') = Inr (OString ''NULL'')"
    by code_simp
  have e: "entry_step subs columns st (col, Scalar (Str ''NULL'')) =
          Inr (st\<lparr>sql := (if sql st = [] then ''WHERE '' else sql st @ ''AND '') @ col
                           @ '' = '' @ subs @ toString (substitution st) @ '' '',
                  substitution := substitution st + 1,
                  valueArray := valueArray st @ [OString ''NULL'']\<rparr>)"
    if "charAt col 0 \<noteq> ''$''" "checkCol columns col = Inr ()"
    by (simp only: entry_step_scalar [OF that] g sum.case)
  have w: "uri2sql subs [(col, Scalar (Str ''NULL''))] columns =
          Inr \<lparr>r_sql = ''WHERE '' @ col @ '' = '' @ subs @ toString 1 @ '' '',
               r_values = [OString ''NULL'']\<rparr>"
    if "charAt col 0 \<noteq> ''$''" "checkCol columns col = Inr ()"
    using that g by (rule uri2sql_single_scalar)
  from g e w show ?thesis
    by blast
qed

theorem null_is_bound_as_string_witness:
  "charAt ''col'' 0 \<noteq> ''$'' \<and> checkCol [] ''col'' = Inr ()
   \<and> getValue (Str ''NULL'') = Inr (OString ''NULL'')
   \<and> entry_step ''$'' [] init (''col'', Scalar (Str ''NULL''))
       = Inr \<lparr>sql = ''WHERE col = $1 '', sort_clause = [], valueArray = [OString ''NULL''],
              substitution = 2\<rparr>
   \<and> uri2sql ''$'' [(''col'', Scalar (Str ''NULL''))] []
       = Inr \<lparr>r_sql = ''WHERE col = $1 '', r_values = [OString ''NULL'']\<rparr>"
proof -
  have c: "charAt ''col'' 0 \<noteq> ''$'' \<and> checkCol [] ''col'' = Inr ()"
    by code_simp
  note T = null_is_bound_as_string [of "''col''" "[]" "''$''" init]
  note S = mp [OF conjunct2 [OF T] c]
  note conjunct1 [OF S]
  also have "Inr (init\<lparr>sql := (if sql init = [] then ''WHERE '' else sql init @ ''AND '') @ ''col''
                           @ '' = '' @ ''$'' @ toString (substitution init) @ '' '',
                  substitution := substitution init + 1,
                  valueArray := valueArray init @ [OString ''NULL'']\<rparr>)
       = (Inr \<lparr>sql = ''WHERE col = $1 '', sort_clause = [], valueArray = [OString ''NULL''],
              substitution = 2\<rparr> :: error + state)"
    by code_simp
  finally have e: "entry_step ''$'' [] init (''col'', Scalar (Str ''NULL''))
       = Inr \<lparr>sql = ''WHERE col = $1 '', sort_clause = [], valueArray = [OString ''NULL''],
              substitution = 2\<rparr>" .
  note conjunct2 [OF S]
  also have "Inr \<lparr>r_sql = ''WHERE '' @ ''col'' @ '' = '' @ ''$'' @ toString 1 @ '' '',
               r_values = [OString ''NULL'']\<rparr>
       = (Inr \<lparr>r_sql = ''WHERE col = $1 '', r_values = [OString ''NULL'']\<rparr> :: error + result)"
    by code_simp
  finally have w: "uri2sql ''$'' [(''col'', Scalar (Str ''NULL''))] []
       = Inr \<lparr>r_sql = ''WHERE col = $1 '', r_values = [OString ''NULL'']\<rparr>" .
  show ?thesis
    using c conjunct1 [OF T] e w by (simp only: simp_thms)
qed

text \<open>
  The claim as it was stated has the text emitted into the SQL and never bound. Compiling
  \<^verbatim>\<open>{col: "NULL"}\<close> binds it.
\<close>

theorem null_is_bound_counterexample:
  "getValue (Str ''NULL'') = Inr (OString ''NULL'')
   \<and> uri2sql ''$'' [(''col'', Scalar (Str ''NULL''))] []
       = Inr \<lparr>r_sql = ''WHERE col = $1 '', r_values = [OString ''NULL'']\<rparr>"
  by code_simp

section \<open>The value of the sort directive\<close>

text \<open>
  Claim C9. The string of a \<^verbatim>\<open>$sort\<close> entry goes through the value normalizer as a whole
  before it is split at \<^verbatim>\<open>:\<close>. So an empty \<^verbatim>\<open>$sort\<close> string fails with \<open>MissingValue\<close> and a
  \<^verbatim>\<open>$sort\<close> string with a quote or a semicolon in it fails with \<open>InvalidValue\<close>, in whatever
  state the loop reaches the entry; and the whole call fails so when the entries before it
  compile.
\<close>

theorem sort_value_is_normalized:
  "entry_step subs columns st (''$sort'', Scalar (Str s)) =
     (case getValue (Str s) of
        Inl e \<Rightarrow> Inl e
      | Inr val \<Rightarrow>
          (case split_value val of
             Inl e \<Rightarrow> Inl e
           | Inr sortCols \<Rightarrow> for_each (sort_step columns) st sortCols))
   \<and> entry_step subs columns st (''$sort'', Scalar (Str [])) = Inl MissingValue
   \<and> (CHR 0x27 \<in> set s \<or> CHR '';'' \<in> set s \<longrightarrow>
        entry_step subs columns st (''$sort'', Scalar (Str s)) = Inl (InvalidValue s))
   \<and> (for_each (entry_step subs columns) init pre = Inr st \<longrightarrow>
        uri2sql subs (pre @ (''$sort'', Scalar (Str [])) # rest) columns = Inl MissingValue)
   \<and> (for_each (entry_step subs columns) init pre = Inr st
        \<and> (CHR 0x27 \<in> set s \<or> CHR '';'' \<in> set s) \<longrightarrow>
        uri2sql subs (pre @ (''$sort'', Scalar (Str s)) # rest) columns = Inl (InvalidValue s))"
proof -
  have empty: "entry_step subs columns st (''$sort'', Scalar (Str [])) = Inl MissingValue" for st
    by (simp add: entry_step_sort)
  have bad: "entry_step subs columns st (''$sort'', Scalar (Str s)) = Inl (InvalidValue s)"
    if "CHR 0x27 \<in> set s \<or> CHR '';'' \<in> set s" for st
    using getValue_rejects [OF that] by (simp only: entry_step_sort sum.case)
  from entry_step_sort empty bad uri2sql_fails_at [OF _ empty] uri2sql_fails_at [OF _ bad]
  show ?thesis
    by blast
qed

theorem sort_value_is_normalized_witness:
  "(CHR 0x27 \<in> set ''a;b'' \<or> CHR '';'' \<in> set ''a;b'')
   \<and> for_each (entry_step ''$'' []) init [(''x'', Scalar (Str ''y''))]
       = Inr \<lparr>sql = ''WHERE x = $1 '', sort_clause = [], valueArray = [OString ''y''],
              substitution = 2\<rparr>
   \<and> entry_step ''$'' [] init (''$sort'', Scalar (Str [])) = Inl MissingValue
   \<and> entry_step ''$'' [] init (''$sort'', Scalar (Str ''a;b'')) = Inl (InvalidValue ''a;b'')
   \<and> uri2sql ''$'' ([(''x'', Scalar (Str ''y''))] @ (''$sort'', Scalar (Str [])) # []) []
       = Inl MissingValue
   \<and> uri2sql ''$'' ([(''x'', Scalar (Str ''y''))] @ (''$sort'', Scalar (Str ''a;b'')) # []) []
       = Inl (InvalidValue ''a;b'')"
proof -
  have h: "CHR 0x27 \<in> set ''a;b'' \<or> CHR '';'' \<in> set ''a;b''"
    by simp
  have p: "for_each (entry_step ''$'' []) init [(''x'', Scalar (Str ''y''))]
       = Inr \<lparr>sql = ''WHERE x = $1 '', sort_clause = [], valueArray = [OString ''y''],
              substitution = 2\<rparr>"
    by code_simp
  note T = sort_value_is_normalized [where subs = "''$''" and columns = "[]" and st = init
      and s = "''a;b''" and pre = "[]" and rest = "[]"]
  note U = sort_value_is_normalized [where subs = "''$''" and columns = "[]"
      and st = "\<lparr>sql = ''WHERE x = $1 '', sort_clause = [], valueArray = [OString ''y''],
              substitution = 2\<rparr>"
      and s = "''a;b''" and pre = "[(''x'', Scalar (Str ''y''))]" and rest = "[]"]
  have a: "entry_step ''$'' [] init (''$sort'', Scalar (Str [])) = Inl MissingValue"
    by (rule conjunct1 [OF conjunct2 [OF T]])
  have b: "entry_step ''$'' [] init (''$sort'', Scalar (Str ''a;b'')) = Inl (InvalidValue ''a;b'')"
    by (rule mp [OF conjunct1 [OF conjunct2 [OF conjunct2 [OF T]]] h])
  have c: "uri2sql ''$'' ([(''x'', Scalar (Str ''y''))] @ (''$sort'', Scalar (Str [])) # []) []
       = Inl MissingValue"
    by (rule mp [OF conjunct1 [OF conjunct2 [OF conjunct2 [OF conjunct2 [OF U]]]] p])
  have d: "uri2sql ''$'' ([(''x'', Scalar (Str ''y''))] @ (''$sort'', Scalar (Str ''a;b'')) # []) []
       = Inl (InvalidValue ''a;b'')"
    by (rule mp [OF conjunct2 [OF conjunct2 [OF conjunct2 [OF conjunct2 [OF U]]]] conjI [OF p h]])
  show ?thesis
    by (rule conjI [OF h conjI [OF p conjI [OF a conjI [OF b conjI [OF c d]]]]])
qed

section \<open>The column allow-list\<close>

text \<open>
  Claim C5. The column check does nothing when the allow-list is empty, and accepts every
  name that some record of the list carries. When the list is not empty, a filter column
  that no record carries makes the loop body throw \<open>UnknownColumn\<close> in whatever state the
  entry is reached, so that the whole call fails with it when the entries before compile;
  and so does a \<^verbatim>\<open>$sort\<close> string with a segment whose column no record carries, once the
  normalizer has returned the string for splitting. With the allow-list
  \<^verbatim>\<open>[{column_name:"a"}]\<close>, \<^verbatim>\<open>{b: 1}\<close> fails and \<^verbatim>\<open>{a: 1}\<close> compiles.
\<close>

theorem unknown_column_is_rejected:
  "checkCol [] c = Inr ()
   \<and> (c \<in> column_name ` set columns \<longrightarrow> checkCol columns c = Inr ())
   \<and> (columns \<noteq> [] \<and> c \<notin> column_name ` set columns \<longrightarrow>
        checkCol columns c = Inl (UnknownColumn c))
   \<and> (columns \<noteq> [] \<and> c \<notin> column_name ` set columns \<and> charAt c 0 \<noteq> ''$'' \<longrightarrow>
        entry_step subs columns st (c, v) = Inl (UnknownColumn c))
   \<and> (columns \<noteq> [] \<and> c \<notin> column_name ` set columns \<and> charAt c 0 \<noteq> ''$''
        \<and> for_each (entry_step subs columns) init pre = Inr st \<longrightarrow>
        uri2sql subs (pre @ (c, v) # rest) columns = Inl (UnknownColumn c))
   \<and> (columns \<noteq> [] \<and> getValue (Str s) = Inr (OString s)
        \<and> seg \<in> set (split (CHR '':'') s) \<and> sort_column seg \<notin> column_name ` set columns \<longrightarrow>
        (\<exists>c'. c' \<notin> column_name ` set columns
             \<and> entry_step subs columns st (''$sort'', Scalar (Str s)) = Inl (UnknownColumn c')))
   \<and> (columns \<noteq> [] \<and> getValue (Str s) = Inr (OString s)
        \<and> seg \<in> set (split (CHR '':'') s) \<and> sort_column seg \<notin> column_name ` set columns
        \<and> for_each (entry_step subs columns) init pre = Inr st \<longrightarrow>
        (\<exists>c'. c' \<notin> column_name ` set columns
             \<and> uri2sql subs (pre @ (''$sort'', Scalar (Str s)) # rest) columns
                 = Inl (UnknownColumn c')))
   \<and> (c \<in> column_name ` set columns \<and> charAt c 0 \<noteq> ''$'' \<and> getValue p = Inr val \<longrightarrow>
        uri2sql subs [(c, Scalar p)] columns =
          Inr \<lparr>r_sql = ''WHERE '' @ c @ '' = '' @ subs @ toString 1 @ '' '', r_values = [val]\<rparr>)"
proof -
  have filt: "entry_step subs columns st (c, v) = Inl (UnknownColumn c)"
    if "columns \<noteq> []" "c \<notin> column_name ` set columns" "charAt c 0 \<noteq> ''$''" for st
    using that by (simp add: entry_step_unknown checkCol_unknown)
  have srt: "\<exists>c'. c' \<notin> column_name ` set columns
             \<and> entry_step subs columns st (''$sort'', Scalar (Str s)) = Inl (UnknownColumn c')"
    if "columns \<noteq> []" "getValue (Str s) = Inr (OString s)"
      "seg \<in> set (split (CHR '':'') s)" "sort_column seg \<notin> column_name ` set columns" for st
  proof -
    from that have "checkCol columns (sort_column seg) \<noteq> Inr ()"
      by (simp add: checkCol_unknown)
    with that(3) have "\<exists>x \<in> set (split (CHR '':'') s). checkCol columns (sort_column x) \<noteq> Inr ()"
      by blast
    from sort_loop_unknown [OF this, of st] obtain c' where
      c': "checkCol columns c' = Inl (UnknownColumn c')"
      and f: "for_each (sort_step columns) st (split (CHR '':'') s) = Inl (UnknownColumn c')"
      by blast
    from c' have "c' \<notin> column_name ` set columns"
      using checkCol_known [of c' columns] by auto
    moreover have "entry_step subs columns st (''$sort'', Scalar (Str s)) = Inl (UnknownColumn c')"
      using that(2) f by (simp add: entry_step_sort)
    ultimately show ?thesis by blast
  qed
  have whole_f: "uri2sql subs (pre @ (c, v) # rest) columns = Inl (UnknownColumn c)"
    if "columns \<noteq> []" "c \<notin> column_name ` set columns" "charAt c 0 \<noteq> ''$''"
      "for_each (entry_step subs columns) init pre = Inr st"
    using that(4) filt [OF that(1-3)] by (rule uri2sql_fails_at)
  have whole_s: "\<exists>c'. c' \<notin> column_name ` set columns
             \<and> uri2sql subs (pre @ (''$sort'', Scalar (Str s)) # rest) columns
                 = Inl (UnknownColumn c')"
    if "columns \<noteq> []" "getValue (Str s) = Inr (OString s)"
      "seg \<in> set (split (CHR '':'') s)" "sort_column seg \<notin> column_name ` set columns"
      "for_each (entry_step subs columns) init pre = Inr st"
    using srt [OF that(1-4), of st] uri2sql_fails_at [OF that(5)] by blast
  have ok: "uri2sql subs [(c, Scalar p)] columns =
          Inr \<lparr>r_sql = ''WHERE '' @ c @ '' = '' @ subs @ toString 1 @ '' '', r_values = [val]\<rparr>"
    if "c \<in> column_name ` set columns" "charAt c 0 \<noteq> ''$''" "getValue p = Inr val"
    using that by (simp add: uri2sql_single_scalar checkCol_known)
  show ?thesis
    apply (intro conjI impI; (elim conjE)?)
    subgoal by (rule checkCol_empty)
    subgoal by (rule checkCol_known)
    subgoal by (rule checkCol_unknown)
    subgoal by (rule filt)
    subgoal by (rule whole_f)
    subgoal by (rule srt)
    subgoal by (rule whole_s)
    subgoal by (rule ok)
    done
qed


theorem unknown_column_is_rejected_witness:
  "[\<lparr>column_name = ''a''\<rparr>] \<noteq> []
   \<and> ''b'' \<notin> column_name ` set [\<lparr>column_name = ''a''\<rparr>]
   \<and> charAt ''b'' 0 \<noteq> ''$''
   \<and> for_each (entry_step ''$'' [\<lparr>column_name = ''a''\<rparr>]) init [] = Inr init
   \<and> checkCol [] ''b'' = Inr ()
   \<and> checkCol [\<lparr>column_name = ''a''\<rparr>] ''b'' = Inl (UnknownColumn ''b'')
   \<and> entry_step ''$'' [\<lparr>column_name = ''a''\<rparr>] init (''b'', Scalar (Num (Finite 1)))
       = Inl (UnknownColumn ''b'')
   \<and> uri2sql ''$'' ([] @ (''b'', Scalar (Num (Finite 1))) # []) [\<lparr>column_name = ''a''\<rparr>]
       = Inl (UnknownColumn ''b'')
   \<and> ''a'' \<in> column_name ` set [\<lparr>column_name = ''a''\<rparr>]
   \<and> charAt ''a'' 0 \<noteq> ''$''
   \<and> getValue (Num (Finite 1)) = Inr (ONumber (Num (Finite 1)))
   \<and> checkCol [\<lparr>column_name = ''a''\<rparr>] ''a'' = Inr ()
   \<and> uri2sql ''$'' [(''a'', Scalar (Num (Finite 1)))] [\<lparr>column_name = ''a''\<rparr>]
       = Inr \<lparr>r_sql = ''WHERE a = $1 '', r_values = [ONumber (Num (Finite 1))]\<rparr>
   \<and> getValue (Str ''a:-b'') = Inr (OString ''a:-b'')
   \<and> ''-b'' \<in> set (split (CHR '':'') ''a:-b'')
   \<and> sort_column ''-b'' \<notin> column_name ` set [\<lparr>column_name = ''a''\<rparr>]
   \<and> (\<exists>c'. c' \<notin> column_name ` set [\<lparr>column_name = ''a''\<rparr>]
         \<and> entry_step ''$'' [\<lparr>column_name = ''a''\<rparr>] init (''$sort'', Scalar (Str ''a:-b''))
             = Inl (UnknownColumn c'))
   \<and> (\<exists>c'. c' \<notin> column_name ` set [\<lparr>column_name = ''a''\<rparr>]
         \<and> uri2sql ''$'' ([] @ (''$sort'', Scalar (Str ''a:-b'')) # []) [\<lparr>column_name = ''a''\<rparr>]
             = Inl (UnknownColumn c'))"
proof -
  let ?cols = "[\<lparr>column_name = ''a''\<rparr>]"
  have h1: "?cols \<noteq> []" by simp
  have h2: "''b'' \<notin> column_name ` set ?cols" by simp
  have h3: "charAt ''b'' 0 \<noteq> ''$''" by (simp add: charAt_def)
  have h4: "for_each (entry_step ''$'' ?cols) init [] = Inr init" by simp
  have h5: "''a'' \<in> column_name ` set ?cols" by simp
  have h6: "charAt ''a'' 0 \<noteq> ''$''" by (simp add: charAt_def)
  have h7: "getValue (Num (Finite 1)) = Inr (ONumber (Num (Finite 1)))" by simp
  have h8: "getValue (Str ''a:-b'') = Inr (OString ''a:-b'')" by code_simp
  have h9: "''-b'' \<in> set (split (CHR '':'') ''a:-b'')" by code_simp
  have h10: "sort_column ''-b'' \<notin> column_name ` set ?cols"
    by (simp add: sort_column_def charAt_def substring_def)
  note B = unknown_column_is_rejected [where c = "''b''" and columns = ?cols and subs = "''$''"
      and st = init and v = "Scalar (Num (Finite 1))" and pre = "[]" and rest = "[]"
      and s = "''a:-b''" and seg = "''-b''"]
  note A = unknown_column_is_rejected [where c = "''a''" and columns = ?cols and subs = "''$''"
      and p = "Num (Finite 1)" and val = "ONumber (Num (Finite 1))"]
  note B2 = conjunct2 [OF B]
  note B3 = conjunct2 [OF B2]
  note B4 = conjunct2 [OF B3]
  note B5 = conjunct2 [OF B4]
  note B6 = conjunct2 [OF B5]
  note B7 = conjunct2 [OF B6]
  have r1: "checkCol [] ''b'' = Inr ()"
    by (rule conjunct1 [OF B])
  have r2: "checkCol ?cols ''b'' = Inl (UnknownColumn ''b'')"
    by (rule mp [OF conjunct1 [OF B3] conjI [OF h1 h2]])
  have r3: "entry_step ''$'' ?cols init (''b'', Scalar (Num (Finite 1))) = Inl (UnknownColumn ''b'')"
    by (rule mp [OF conjunct1 [OF B4] conjI [OF h1 conjI [OF h2 h3]]])
  have r4: "uri2sql ''$'' ([] @ (''b'', Scalar (Num (Finite 1))) # []) ?cols = Inl (UnknownColumn ''b'')"
    by (rule mp [OF conjunct1 [OF B5] conjI [OF h1 conjI [OF h2 conjI [OF h3 h4]]]])
  have r5: "\<exists>c'. c' \<notin> column_name ` set ?cols
         \<and> entry_step ''$'' ?cols init (''$sort'', Scalar (Str ''a:-b'')) = Inl (UnknownColumn c')"
    by (rule mp [OF conjunct1 [OF B6] conjI [OF h1 conjI [OF h8 conjI [OF h9 h10]]]])
  have r6: "\<exists>c'. c' \<notin> column_name ` set ?cols
         \<and> uri2sql ''$'' ([] @ (''$sort'', Scalar (Str ''a:-b'')) # []) ?cols = Inl (UnknownColumn c')"
    by (rule mp [OF conjunct1 [OF B7] conjI [OF h1 conjI [OF h8 conjI [OF h9 conjI [OF h10 h4]]]]])
  have r7: "checkCol ?cols ''a'' = Inr ()"
    by (rule mp [OF conjunct1 [OF conjunct2 [OF A]] h5])
  note mp [OF conjunct2 [OF conjunct2 [OF conjunct2 [OF conjunct2 [OF conjunct2 [OF conjunct2
      [OF conjunct2 [OF A]]]]]]] conjI [OF h5 conjI [OF h6 h7]]]
  also have "Inr \<lparr>r_sql = ''WHERE '' @ ''a'' @ '' = '' @ ''$'' @ toString 1 @ '' '',
                  r_values = [ONumber (Num (Finite 1))]\<rparr>
      = (Inr \<lparr>r_sql = ''WHERE a = $1 '', r_values = [ONumber (Num (Finite 1))]\<rparr> :: error + result)"
    by (simp add: toString.simps digit_char_def)
  finally have r8: "uri2sql ''$'' [(''a'', Scalar (Num (Finite 1)))] ?cols
       = Inr \<lparr>r_sql = ''WHERE a = $1 '', r_values = [ONumber (Num (Finite 1))]\<rparr>" .
  show ?thesis
    by (intro conjI h1 h2 h3 h4 h5 h6 h7 h8 h9 h10 r1 r2 r3 r4 r5 r6 r7 r8)
qed

section \<open>Placeholders and bound values\<close>

text \<open>
  Claim C1, as amended. Let the placeholder symbol be one character that is no digit and
  no character of the compiler's own keywords and operator texts (the default \<^verbatim>\<open>$\<close> is
  one), and let no filter column and no \<^verbatim>\<open>$sort\<close> string of the query object contain it.
  Then, when the call compiles, the placeholders of the returned SQL text are, in their
  order of appearance, the numbers 1 up to the length of the returned values; in
  particular there are as many placeholders as values.
\<close>

theorem placeholders_match_values:
  assumes "\<not> is_digit c" and "\<not> sql_text_char c"
    and "symbol_free c query"
    and "uri2sql [c] query columns = Inr r"
  shows "placeholders c (r_sql r) = [1 ..< Suc (length (r_values r))]
       \<and> length (placeholders c (r_sql r)) = length (r_values r)"
proof -
  have p: "placeholders c (r_sql r) = [1 ..< Suc (length (r_values r))]"
    using assms by (rule uri2sql_numbered)
  have "length [1 ..< Suc (length (r_values r))] = length (r_values r)"
    by (simp only: length_upt diff_Suc_1)
  with p show ?thesis
    by (simp only: simp_thms)
qed

theorem placeholders_match_values_witness:
  "\<not> is_digit (CHR ''$'') \<and> \<not> sql_text_char (CHR ''$'')
   \<and> symbol_free (CHR ''$'')
        [(''name'', Ops [(''like'', Str ''%Jones'')]), (''age'', Ops [(''-tween'', Str ''18:x'')]),
         (''status'', Ops [(''in'', Str ''a:b:c'')]), (''gone'', Ops [(''is'', Str ''x'')]),
         (''city'', Scalar (Str ''Paris'')), (''$sort'', Scalar (Str ''-age:name''))]
   \<and> uri2sql ''$''
        [(''name'', Ops [(''like'', Str ''%Jones'')]), (''age'', Ops [(''-tween'', Str ''18:x'')]),
         (''status'', Ops [(''in'', Str ''a:b:c'')]), (''gone'', Ops [(''is'', Str ''x'')]),
         (''city'', Scalar (Str ''Paris'')), (''$sort'', Scalar (Str ''-age:name''))] []
       = Inr \<lparr>r_sql = ''WHERE name LIKE $1 AND age NOT BETWEEN $2 AND $3 AND status IN ($4, $5, $6) AND gone IS NULL AND city = $7 ORDER BY age DESC, name'',
               r_values = [OString ''%Jones'', OString ''18'', OString ''x'', OString ''a'',
                           OString ''b'', OString ''c'', OString ''Paris'']\<rparr>
   \<and> placeholders (CHR ''$'')
        ''WHERE name LIKE $1 AND age NOT BETWEEN $2 AND $3 AND status IN ($4, $5, $6) AND gone IS NULL AND city = $7 ORDER BY age DESC, name''
       = [1 ..< Suc (length [OString ''%Jones'', OString ''18'', OString ''x'', OString ''a'',
                           OString ''b'', OString ''c'', OString ''Paris''])]
   \<and> length (placeholders (CHR ''$'')
        ''WHERE name LIKE $1 AND age NOT BETWEEN $2 AND $3 AND status IN ($4, $5, $6) AND gone IS NULL AND city = $7 ORDER BY age DESC, name'')
       = length [OString ''%Jones'', OString ''18'', OString ''x'', OString ''a'',
                           OString ''b'', OString ''c'', OString ''Paris'']"
proof -
  let ?q = "[(''name'', Ops [(''like'', Str ''%Jones'')]), (''age'', Ops [(''-tween'', Str ''18:x'')]),
         (''status'', Ops [(''in'', Str ''a:b:c'')]), (''gone'', Ops [(''is'', Str ''x'')]),
         (''city'', Scalar (Str ''Paris'')), (''$sort'', Scalar (Str ''-age:name''))]"
  let ?r = "\<lparr>r_sql = ''WHERE name LIKE $1 AND age NOT BETWEEN $2 AND $3 AND status IN ($4, $5, $6) AND gone IS NULL AND city = $7 ORDER BY age DESC, name'',
               r_values = [OString ''%Jones'', OString ''18'', OString ''x'', OString ''a'',
                           OString ''b'', OString ''c'', OString ''Paris'']\<rparr>"
  have h1: "\<not> is_digit (CHR ''$'')" by code_simp
  have h2: "\<not> sql_text_char (CHR ''$'')" by code_simp
  have h3: "symbol_free (CHR ''$'') ?q" by code_simp
  have h4: "uri2sql ''$'' ?q [] = Inr ?r" by code_simp
  note T = placeholders_match_values [OF h1 h2 h3 h4]
  have r1: "placeholders (CHR ''$'') (r_sql ?r) = [1 ..< Suc (length (r_values ?r))]"
    by (rule conjunct1 [OF T])
  have r2: "length (placeholders (CHR ''$'') (r_sql ?r)) = length (r_values ?r)"
    by (rule conjunct2 [OF T])
  have sel: "r_sql ?r = ''WHERE name LIKE $1 AND age NOT BETWEEN $2 AND $3 AND status IN ($4, $5, $6) AND gone IS NULL AND city = $7 ORDER BY age DESC, name''"
    "r_values ?r = [OString ''%Jones'', OString ''18'', OString ''x'', OString ''a'',
                           OString ''b'', OString ''c'', OString ''Paris'']"
    by (simp_all only: result.simps)
  show ?thesis
    using h1 h2 h3 h4 r1 r2 unfolding sel by (intro conjI)
qed

text \<open>
  The claim as it was stated speaks of every query object. A column name goes into the
  text as it is, and with an empty allow-list it may hold a placeholder of its own: then
  the text has two placeholders, numbered 2 and 1, for one value.
\<close>

theorem column_with_placeholder_counterexample:
  "uri2sql ''$'' [(''b = $2 OR a'', Scalar (Str ''x''))] []
     = Inr \<lparr>r_sql = ''WHERE b = $2 OR a = $1 '', r_values = [OString ''x'']\<rparr>
   \<and> placeholders (CHR ''$'') ''WHERE b = $2 OR a = $1 '' = [2, 1]
   \<and> length [OString ''x''] = 1"
  by code_simp

section \<open>Quotes and semicolons\<close>

text \<open>
  Claim C2, as amended. When a call compiles, no string among the returned values has a
  quote or a semicolon in it. A raw string with either character makes the normalizer throw
  \<open>InvalidValue\<close>; so does every operator pair that hands its value to the normalizer, which
  is every operator but \<^verbatim>\<open>is\<close> (the colon-joined values of \<^verbatim>\<open>tween\<close> and \<^verbatim>\<open>in\<close> included),
  and the whole call fails with \<open>InvalidValue\<close> and returns nothing when such a value is
  reached: as a plain value or under such an operator, in an entry whose column passes the
  column check, after entries and pairs that compile.
\<close>

theorem bound_strings_are_sanitized:
  "(uri2sql subs query columns = Inr r \<longrightarrow> list_all clean_value (r_values r))
   \<and> (CHR 0x27 \<in> set s \<or> CHR '';'' \<in> set s \<longrightarrow> getValue (Str s) = Inl (InvalidValue s))
   \<and> ((CHR 0x27 \<in> set s \<or> CHR '';'' \<in> set s) \<and> key_token op \<noteq> ''is'' \<longrightarrow>
        op_step subs (st, neg) (op, Str s) = Inl (InvalidValue s))
   \<and> ((CHR 0x27 \<in> set s \<or> CHR '';'' \<in> set s)
        \<and> charAt col 0 \<noteq> ''$'' \<and> checkCol columns col = Inr ()
        \<and> for_each (entry_step subs columns) init pre = Inr st \<longrightarrow>
        uri2sql subs (pre @ (col, Scalar (Str s)) # rest) columns = Inl (InvalidValue s))
   \<and> ((CHR 0x27 \<in> set s \<or> CHR '';'' \<in> set s) \<and> key_token op \<noteq> ''is''
        \<and> charAt col 0 \<noteq> ''$'' \<and> checkCol columns col = Inr ()
        \<and> for_each (entry_step subs columns) init pre = Inr st
        \<and> for_each (op_step subs)
             (st\<lparr>sql := (if sql st = [] then ''WHERE '' else sql st @ ''AND '') @ col @ '' ''\<rparr>, 0)
             before = Inr sn \<longrightarrow>
        uri2sql subs (pre @ (col, Ops (before @ (op, Str s) # after)) # rest) columns
          = Inl (InvalidValue s))"
proof -
  have plain: "uri2sql subs (pre @ (col, Scalar (Str s)) # rest) columns = Inl (InvalidValue s)"
    if "CHR 0x27 \<in> set s \<or> CHR '';'' \<in> set s"
      "charAt col 0 \<noteq> ''$''" "checkCol columns col = Inr ()"
      "for_each (entry_step subs columns) init pre = Inr st"
  proof (rule uri2sql_fails_at [OF that(4)])
    show "entry_step subs columns st (col, Scalar (Str s)) = Inl (InvalidValue s)"
      by (simp only: entry_step_scalar [OF that(2,3)] getValue_rejects [OF that(1)] sum.case)
  qed
  have ops: "uri2sql subs (pre @ (col, Ops (before @ (op, Str s) # after)) # rest) columns
          = Inl (InvalidValue s)"
    if "CHR 0x27 \<in> set s \<or> CHR '';'' \<in> set s" "key_token op \<noteq> ''is''"
      "charAt col 0 \<noteq> ''$''" "checkCol columns col = Inr ()"
      "for_each (entry_step subs columns) init pre = Inr st"
      "for_each (op_step subs)
             (st\<lparr>sql := (if sql st = [] then ''WHERE '' else sql st @ ''AND '') @ col @ '' ''\<rparr>, 0)
             before = Inr sn"
  proof (rule uri2sql_fails_at [OF that(5)])
    obtain s1 n1 where sn: "sn = (s1, n1)" by (cases sn)
    have "for_each (op_step subs)
             (st\<lparr>sql := (if sql st = [] then ''WHERE '' else sql st @ ''AND '') @ col @ '' ''\<rparr>, 0)
             (before @ (op, Str s) # after) = Inl (InvalidValue s)"
      by (simp add: for_each_append that(6) sn op_step_rejects [OF that(1,2)])
    then show "entry_step subs columns st (col, Ops (before @ (op, Str s) # after))
                 = Inl (InvalidValue s)"
      by (simp only: entry_step_ops [OF that(3,4)] sum.case)
  qed
  show ?thesis
    apply (intro conjI impI; (elim conjE)?)
    subgoal by (rule uri2sql_clean)
    subgoal by (rule getValue_rejects)
    subgoal by (rule op_step_rejects)
    subgoal by (rule plain)
    subgoal by (rule ops)
    done
qed

theorem bound_strings_are_sanitized_witness:
  "uri2sql ''$'' [(''name'', Ops [(''like'', Str ''%Jones'')]), (''city'', Scalar (Str ''Paris''))] []
     = Inr \<lparr>r_sql = ''WHERE name LIKE $1 AND city = $2 '',
             r_values = [OString ''%Jones'', OString ''Paris'']\<rparr>
   \<and> list_all clean_value [OString ''%Jones'', OString ''Paris'']
   \<and> (CHR 0x27 \<in> set [CHR ''i'', CHR ''t'', CHR 0x27, CHR ''s'']
        \<or> CHR '';'' \<in> set [CHR ''i'', CHR ''t'', CHR 0x27, CHR ''s''])
   \<and> key_token ''-in'' \<noteq> ''is''
   \<and> charAt ''note'' 0 \<noteq> ''$'' \<and> checkCol [] ''note'' = Inr ()
   \<and> for_each (entry_step ''$'' []) init [] = Inr init
   \<and> for_each (op_step ''$'')
        (init\<lparr>sql := (if sql init = [] then ''WHERE '' else sql init @ ''AND '') @ ''note'' @ '' ''\<rparr>, 0)
        [] = Inr (init\<lparr>sql := (if sql init = [] then ''WHERE '' else sql init @ ''AND '')
                               @ ''note'' @ '' ''\<rparr>, 0)
   \<and> getValue (Str [CHR ''i'', CHR ''t'', CHR 0x27, CHR ''s''])
       = Inl (InvalidValue [CHR ''i'', CHR ''t'', CHR 0x27, CHR ''s''])
   \<and> op_step ''$'' (init, 0) (''-in'', Str [CHR ''i'', CHR ''t'', CHR 0x27, CHR ''s''])
       = Inl (InvalidValue [CHR ''i'', CHR ''t'', CHR 0x27, CHR ''s''])
   \<and> uri2sql ''$'' ([] @ (''note'', Scalar (Str [CHR ''i'', CHR ''t'', CHR 0x27, CHR ''s''])) # []) []
       = Inl (InvalidValue [CHR ''i'', CHR ''t'', CHR 0x27, CHR ''s''])
   \<and> uri2sql ''$''
        ([] @ (''note'', Ops ([] @ (''-in'', Str [CHR ''i'', CHR ''t'', CHR 0x27, CHR ''s'']) # [])) # []) []
       = Inl (InvalidValue [CHR ''i'', CHR ''t'', CHR 0x27, CHR ''s''])"
proof -
  let ?s = "[CHR ''i'', CHR ''t'', CHR 0x27, CHR ''s'']"
  let ?r = "\<lparr>r_sql = ''WHERE name LIKE $1 AND city = $2 '',
             r_values = [OString ''%Jones'', OString ''Paris'']\<rparr>"
  let ?st = "init\<lparr>sql := (if sql init = [] then ''WHERE '' else sql init @ ''AND '') @ ''note'' @ '' ''\<rparr>"
  have run: "uri2sql ''$'' [(''name'', Ops [(''like'', Str ''%Jones'')]),
      (''city'', Scalar (Str ''Paris''))] [] = Inr ?r"
    by code_simp
  have h1: "CHR 0x27 \<in> set ?s \<or> CHR '';'' \<in> set ?s" by simp
  have h2: "key_token ''-in'' \<noteq> ''is''" by code_simp
  have h3: "charAt ''note'' 0 \<noteq> ''$''" by (simp add: charAt_def)
  have h4: "checkCol [] ''note'' = Inr ()" by (simp add: checkCol_def)
  have h5: "for_each (entry_step ''$'' []) init [] = Inr init" by simp
  have h6: "for_each (op_step ''$'') (?st, 0) [] = Inr (?st, 0)" by simp
  note A = bound_strings_are_sanitized [where subs = "''$''" and columns = "[]" and r = ?r
      and query = "[(''name'', Ops [(''like'', Str ''%Jones'')]), (''city'', Scalar (Str ''Paris''))]"
      and s = ?s and op = "''-in''" and st = init and neg = 0 and col = "''note''"
      and pre = "[]" and rest = "[]" and before = "[]" and after = "[]" and sn = "(?st, 0)"]
  note A2 = conjunct2 [OF A]
  note A3 = conjunct2 [OF A2]
  note A4 = conjunct2 [OF A3]
  have r1: "list_all clean_value [OString ''%Jones'', OString ''Paris'']"
    using mp [OF conjunct1 [OF A] run] by simp
  have r2: "getValue (Str ?s) = Inl (InvalidValue ?s)"
    by (rule mp [OF conjunct1 [OF A2] h1])
  have r3: "op_step ''$'' (init, 0) (''-in'', Str ?s) = Inl (InvalidValue ?s)"
    by (rule mp [OF conjunct1 [OF A3] conjI [OF h1 h2]])
  have r4: "uri2sql ''$'' ([] @ (''note'', Scalar (Str ?s)) # []) [] = Inl (InvalidValue ?s)"
    by (rule mp [OF conjunct1 [OF A4] conjI [OF h1 conjI [OF h3 conjI [OF h4 h5]]]])
  have r5: "uri2sql ''$'' ([] @ (''note'', Ops ([] @ (''-in'', Str ?s) # [])) # []) []
      = Inl (InvalidValue ?s)"
    by (rule mp [OF conjunct2 [OF A4]
          conjI [OF h1 conjI [OF h2 conjI [OF h3 conjI [OF h4 conjI [OF h5 h6]]]]]])
  show ?thesis
    by (intro conjI run r1 h1 h2 h3 h4 h5 h6 r2 r3 r4 r5)
qed

text \<open>
  The claim as it was stated has every raw scalar with a quote in it fail the call. The
  value of the \<^verbatim>\<open>is\<close> operator is ignored, quote or not.
\<close>

theorem ignored_value_counterexample:
  "CHR 0x27 \<in> set [CHR ''x'', CHR 0x27, CHR ''y'']
   \<and> uri2sql ''$'' [(''a'', Ops [(''is'', Str [CHR ''x'', CHR 0x27, CHR ''y''])])] []
       = Inr \<lparr>r_sql = ''WHERE a IS NULL '', r_values = []\<rparr>"
  by code_simp

section \<open>Directives other than the sort directive\<close>

text \<open>
  Claim C10. A key of the query object that begins with \<^verbatim>\<open>$\<close> and is not \<^verbatim>\<open>$sort\<close> is
  skipped: the loop body returns the state as it found it (no text, no value, no column
  check, no exception, whatever the value of the entry is), and the result of the whole
  call is that of the query object without the entry.
\<close>

theorem other_directive_is_skipped:
  assumes "charAt k 0 = ''$''" and "k \<noteq> ''$sort''"
  shows "entry_step subs columns st (k, v) = Inr st
       \<and> uri2sql subs (xs @ (k, v) # ys) columns = uri2sql subs (xs @ ys) columns"
proof -
  have skip: "entry_step subs columns s (k, v) = Inr s" for s
    using assms by (simp add: entry_step_def)
  have "for_each (entry_step subs columns) init (xs @ (k, v) # ys)
      = for_each (entry_step subs columns) init (xs @ ys)"
    by (rule for_each_skip) (rule skip)
  then show ?thesis
    by (simp add: uri2sql_def skip)
qed

theorem other_directive_is_skipped_witness:
  "charAt ''$limit'' 0 = ''$'' \<and> ''$limit'' \<noteq> ''$sort''
   \<and> entry_step ''$'' [\<lparr>column_name = ''a''\<rparr>] init (''$limit'', Scalar (Str [CHR 0x27])) = Inr init
   \<and> uri2sql ''$'' ([(''a'', Scalar (Str ''x''))] @ (''$limit'', Scalar (Str [CHR 0x27])) # [])
        [\<lparr>column_name = ''a''\<rparr>]
     = uri2sql ''$'' ([(''a'', Scalar (Str ''x''))] @ []) [\<lparr>column_name = ''a''\<rparr>]"
proof -
  have a: "charAt ''$limit'' 0 = ''$''" by (simp add: charAt_def)
  have b: "''$limit'' \<noteq> ''$sort''" by simp
  from other_directive_is_skipped [OF a b] a b show ?thesis by blast
qed

end
